theory Spec2Isabelle
  imports Complex_Main "HOL-Library.Word" "HOL-Library.Multiset"
begin

section \<open>Block segments and their textual form\<close>

text \<open>
  Block numbers are Go \<open>uint64\<close> values: 64-bit words whose arithmetic wraps around.
  The shared counters are Go \<open>int64\<close> values; they are 64-bit words as well, read as
  two's complement with \<open>sint\<close>.
\<close>

type_synonym uint64 = "64 word"
type_synonym int64 = "64 word"

record BlockSegment =
  First :: uint64
  Last :: uint64

definition NewBlockSegment :: "uint64 \<Rightarrow> uint64 \<Rightarrow> BlockSegment" where
  "NewBlockSegment fst_block lst_block = \<lparr>First = fst_block, Last = lst_block\<rparr>"

subsection \<open>The regular expression of \<open>ParseBlockSegment\<close>\<close>

text \<open>
  The pattern is
  \<^verbatim>\<open>^(?P<first>[0-9][0-9_]*)((-|~)(?P<last>[0-9][0-9_]*)(?P<siunit>[kM]?))?$\<close>.
  It is anchored on both sides (in Go's syntax \<open>$\<close> without the \<open>m\<close> flag is the end of
  the text), so it matches the whole string or nothing. The character classes of
  consecutive groups are disjoint, so a matching string has exactly one decomposition
  and the three named groups are found by reading the string from left to right.
\<close>

definition is_digit :: "char \<Rightarrow> bool" where
  "is_digit c \<longleftrightarrow> c \<in> set ''0123456789''"

definition is_digit_or_underscore :: "char \<Rightarrow> bool" where
  "is_digit_or_underscore c \<longleftrightarrow> is_digit c \<or> c = CHR ''_''"

definition is_separator :: "char \<Rightarrow> bool" where
  "is_separator c \<longleftrightarrow> c = CHR ''-'' \<or> c = CHR ''~''"

text \<open>The group \<open>[0-9][0-9_]*\<close> at the head of a string, and what follows it.\<close>

definition number_group :: "string \<Rightarrow> (string \<times> string) option" where
  "number_group s =
     (case s of
        [] \<Rightarrow> None
      | c # cs \<Rightarrow>
          if is_digit c
          then Some (c # takeWhile is_digit_or_underscore cs, dropWhile is_digit_or_underscore cs)
          else None)"

text \<open>
  \<open>FindStringSubmatch\<close>, restricted to the groups \<open>first\<close>, \<open>last\<close> and \<open>siunit\<close>
  that the function reads; \<open>None\<close> is a string that \<open>MatchString\<close> rejects. A group
  that takes no part in the match is the empty string, as in Go.
\<close>

definition FindStringSubmatch :: "string \<Rightarrow> (string \<times> string \<times> string) option" where
  "FindStringSubmatch s =
     (case number_group s of
        None \<Rightarrow> None
      | Some (first_group, rest) \<Rightarrow>
          (case rest of
             [] \<Rightarrow> Some (first_group, [], [])
           | sep # rest' \<Rightarrow>
               if is_separator sep
               then (case number_group rest' of
                       None \<Rightarrow> None
                     | Some (last_group, siunit) \<Rightarrow>
                         if siunit = [] \<or> siunit = ''k'' \<or> siunit = ''M''
                         then Some (first_group, last_group, siunit)
                         else None)
               else None))"

definition MatchString :: "string \<Rightarrow> bool" where
  "MatchString s \<longleftrightarrow> FindStringSubmatch s \<noteq> None"

text \<open>
  The language of the pattern, read off the regular expression itself: a number, or a
  number, a separator, a number and an optional unit.
\<close>

definition number_text :: "string \<Rightarrow> bool" where
  "number_text s \<longleftrightarrow> s \<noteq> [] \<and> is_digit (hd s) \<and> (\<forall>c \<in> set (tl s). is_digit_or_underscore c)"

definition segment_grammar :: "string \<Rightarrow> bool" where
  "segment_grammar s \<longleftrightarrow>
     number_text s \<or>
     (\<exists>first_group sep last_group siunit.
        s = first_group @ sep # last_group @ siunit \<and> number_text first_group \<and>
        is_separator sep \<and> number_text last_group \<and> (siunit = [] \<or> siunit = ''k'' \<or> siunit = ''M''))"

subsection \<open>Numbers\<close>

text \<open>\<open>strings.ReplaceAll(x, "_", "")\<close>.\<close>

definition ReplaceAll_underscore :: "string \<Rightarrow> string" where
  "ReplaceAll_underscore s = filter (\<lambda>c. c \<noteq> CHR ''_'') s"

datatype NumError = ErrSyntax | ErrRange

definition maxUint64 :: nat where
  "maxUint64 = 2 ^ 64 - 1"

definition digit_value :: "char \<Rightarrow> nat" where
  "digit_value c = of_char c - 48"

text \<open>
  \<open>strconv.ParseUint(x, 10, 64)\<close>: the digits are read from left to right; a byte that
  is not a decimal digit is a syntax error, and a value that leaves the 64-bit range is
  a range error, whichever comes first. The empty string is a syntax error.
\<close>

fun parse_digits :: "nat \<Rightarrow> string \<Rightarrow> NumError + nat" where
  "parse_digits n [] = Inr n"
| "parse_digits n (c # cs) =
     (if \<not> is_digit c then Inl ErrSyntax
      else if n * 10 + digit_value c > maxUint64 then Inl ErrRange
      else parse_digits (n * 10 + digit_value c) cs)"

definition ParseUint :: "string \<Rightarrow> NumError + uint64" where
  "ParseUint s =
     (if s = [] then Inl ErrSyntax
      else case parse_digits 0 s of Inl e \<Rightarrow> Inl e | Inr n \<Rightarrow> Inr (of_nat n))"

text \<open>The number that a string of decimal digits denotes.\<close>

definition decimal :: "string \<Rightarrow> nat" where
  "decimal s = foldl (\<lambda>n c. n * 10 + digit_value c) 0 s"

subsection \<open>\<open>ParseBlockSegment\<close>\<close>

text \<open>
  One constructor for each \<open>fmt.Errorf\<close> of the function. The specification calls the
  first \<open>InvalidFormat\<close>, the second and the third \<open>InvalidNumber\<close>, and the last
  \<open>RangeInverted\<close>.
\<close>

datatype ParseError =
    InvalidString string
  | InvalidFirst NumError
  | InvalidLast NumError
  | FirstLargerThanLast uint64 uint64

fun InvalidFormat :: "ParseError \<Rightarrow> bool" where
  "InvalidFormat (InvalidString _) = True"
| "InvalidFormat _ = False"

fun InvalidNumber :: "ParseError \<Rightarrow> bool" where
  "InvalidNumber (InvalidFirst _) = True"
| "InvalidNumber (InvalidLast _) = True"
| "InvalidNumber _ = False"

fun RangeInverted :: "ParseError \<Rightarrow> bool" where
  "RangeInverted (FirstLargerThanLast _ _) = True"
| "RangeInverted _ = False"

text \<open>The \<open>switch siunit\<close>: both bounds are scaled in 64-bit arithmetic.\<close>

definition scale_siunit :: "string \<Rightarrow> BlockSegment \<Rightarrow> BlockSegment" where
  "scale_siunit siunit seg =
     (if siunit = ''k'' then \<lparr>First = First seg * 1000 + 1, Last = Last seg * 1000\<rparr>
      else if siunit = ''M'' then \<lparr>First = First seg * 1000000 + 1, Last = Last seg * 1000000\<rparr>
      else seg)"

definition ParseBlockSegment :: "string \<Rightarrow> ParseError + BlockSegment" where
  "ParseBlockSegment s =
     (case FindStringSubmatch s of
        None \<Rightarrow> Inl (InvalidString s)
      | Some (first_group, last_group, siunit) \<Rightarrow>
          (case ParseUint (ReplaceAll_underscore first_group) of
             Inl e \<Rightarrow> Inl (InvalidFirst e)
           | Inr first_number \<Rightarrow>
               (case (if length (ReplaceAll_underscore last_group) = 0 then Inr first_number
                      else ParseUint (ReplaceAll_underscore last_group)) of
                  Inl e \<Rightarrow> Inl (InvalidLast e)
                | Inr last_number \<Rightarrow>
                    (let seg = scale_siunit siunit \<lparr>First = first_number, Last = last_number\<rparr>
                     in if First seg > Last seg
                        then Inl (FirstLargerThanLast (First seg) (Last seg))
                        else Inr seg))))"

subsection \<open>\<open>ParseBlockSegmentList\<close>\<close>

text \<open>
  \<open>strings.Split(s, ",")\<close>: the text before the first comma, then the pieces of what
  follows that comma; a string without a comma is its own single piece.
\<close>

function Split_comma :: "string \<Rightarrow> string list" where
  "Split_comma s =
     (if CHR '','' \<in> set s
      then takeWhile (\<lambda>c. c \<noteq> CHR '','') s # Split_comma (tl (dropWhile (\<lambda>c. c \<noteq> CHR '','') s))
      else [s])"
  by pat_completeness auto
termination
proof (relation "measure length")
  show "wf (measure length)" by simp
next
  fix s :: string
  assume "CHR '','' \<in> set s"
  then have "dropWhile (\<lambda>c. c \<noteq> CHR '','') s \<noteq> []" by simp
  then have "length (tl (dropWhile (\<lambda>c. c \<noteq> CHR '','') s)) < length (dropWhile (\<lambda>c. c \<noteq> CHR '','') s)"
    by (cases "dropWhile (\<lambda>c. c \<noteq> CHR '','') s") simp_all
  also have "\<dots> \<le> length s" by (rule length_dropWhile_le)
  finally show "(tl (dropWhile (\<lambda>c. c \<noteq> CHR '','') s), s) \<in> measure length" by simp
qed

declare Split_comma.simps [simp del]

text \<open>The loop over the pieces returns at the first piece that fails.\<close>

fun parse_pieces :: "string list \<Rightarrow> ParseError + BlockSegment list" where
  "parse_pieces [] = Inr []"
| "parse_pieces (lx # lxs) =
     (case ParseBlockSegment lx of
        Inl e \<Rightarrow> Inl e
      | Inr seg \<Rightarrow> (case parse_pieces lxs of Inl e \<Rightarrow> Inl e | Inr segs \<Rightarrow> Inr (seg # segs)))"

definition ParseBlockSegmentList :: "string \<Rightarrow> ParseError + BlockSegment list" where
  "ParseBlockSegmentList s = parse_pieces (Split_comma s)"

text \<open>
  \<open>strings.Join(pieces, ",")\<close>, the inverse of the split, used to say what the pieces of
  a string are.
\<close>

fun Join_comma :: "string list \<Rightarrow> string" where
  "Join_comma [] = []"
| "Join_comma [p] = p"
| "Join_comma (p # q # ps) = p @ CHR '','' # Join_comma (q # ps)"

section \<open>Task pools\<close>

subsection \<open>Substates, configuration and the pool\<close>

text \<open>
  The types \<open>Substate\<close>, \<open>SubstateAccount\<close> and \<open>SubstateMessage\<close> and the data base
  are declared in files of the package that are not at hand. The records keep the
  fields that \<open>ExecuteBlock\<close> reads: the input allocation (a Go map from addresses to
  accounts), the code of an account, and the destination of the message, a pointer
  that is \<open>nil\<close> for a contract creation.
\<close>

type_synonym Address = "160 word"

record SubstateAccount =
  Code :: "8 word list"

record SubstateMessage =
  To :: "Address option"

record Substate =
  InputAlloc :: "Address \<rightharpoonup> SubstateAccount"
  Message :: SubstateMessage

record SubstateTaskConfig =
  Workers :: int
  SkipTransferTxs :: bool
  SkipCallTxs :: bool
  SkipCreateTxs :: bool

text \<open>
  A Go \<open>error\<close> is kept as its message. \<open>TaskFunc\<close> is the callback of the job
  (\<open>None\<close> is \<open>nil\<close>); it is taken to be a function of the block number, the
  transaction index and the substate. Its fourth argument in Go is the pool itself, which
  a callback here has in its closure. \<open>DB\<close> is \<open>DB.GetBlockSubstates\<close>: for a block
  number, the pairs of transaction index and substate in the order in which the
  \<open>range\<close> loop of \<open>ExecuteBlock\<close> visits them.
\<close>

record SubstateTaskPool =
  Name :: string
  TaskFunc :: "uint64 \<Rightarrow> int \<Rightarrow> Substate \<Rightarrow> string option"
  Config :: SubstateTaskConfig
  DB :: "uint64 \<Rightarrow> (int \<times> Substate) list"

definition NewSubstateTaskPool ::
  "string \<Rightarrow> (uint64 \<Rightarrow> int \<Rightarrow> Substate \<Rightarrow> string option) \<Rightarrow> SubstateTaskConfig \<Rightarrow>
   (uint64 \<Rightarrow> (int \<times> Substate) list) \<Rightarrow> SubstateTaskPool" where
  "NewSubstateTaskPool name taskFunc config staticSubstateDB =
     \<lparr>Name = name, TaskFunc = taskFunc, Config = config, DB = staticSubstateDB\<rparr>"

text \<open>
  \<open>NumWorkers\<close>: the configured number if it is positive, else the number of physical
  cores, else the number of logical cores. \<open>physical\<close> is the result of
  \<open>cpu.Counts(false)\<close>, \<open>None\<close> when it returns an error; \<open>logical\<close> is
  \<open>runtime.NumCPU()\<close>.
\<close>

definition NumWorkers :: "SubstateTaskPool \<Rightarrow> int option \<Rightarrow> int \<Rightarrow> int" where
  "NumWorkers pool physical logical =
     (if Workers (Config pool) > 0 then Workers (Config pool)
      else case physical of Some cores \<Rightarrow> cores | None \<Rightarrow> logical)"

subsection \<open>The content filters\<close>

text \<open>
  The three \<open>if\<close> statements at the head of the loop body of \<open>ExecuteBlock\<close>, each
  of which ends the iteration with \<open>continue\<close>. \<open>filter_rule f\<close> is the condition of
  the statement named \<open>f\<close>.
\<close>

datatype Filter = TransferFilter | CallFilter | CreateFilter

fun filter_rule :: "Filter \<Rightarrow> SubstateTaskConfig \<Rightarrow> Substate \<Rightarrow> bool" where
  "filter_rule TransferFilter config substate =
     (case To (Message substate) of
        None \<Rightarrow> False
      | Some dest \<Rightarrow>
          SkipTransferTxs config \<and>
          (case InputAlloc substate dest of
             None \<Rightarrow> True
           | Some account \<Rightarrow> length (Code account) = 0))"
| "filter_rule CallFilter config substate =
     (case To (Message substate) of
        None \<Rightarrow> False
      | Some dest \<Rightarrow>
          SkipCallTxs config \<and>
          (case InputAlloc substate dest of
             None \<Rightarrow> False
           | Some account \<Rightarrow> length (Code account) > 0))"
| "filter_rule CreateFilter config substate =
     (SkipCreateTxs config \<and> To (Message substate) = None)"

text \<open>The first statement of a sequence whose condition holds, if there is one.\<close>

fun first_match :: "Filter list \<Rightarrow> SubstateTaskConfig \<Rightarrow> Substate \<Rightarrow> Filter option" where
  "first_match [] config substate = None"
| "first_match (f # fs) config substate =
     (if filter_rule f config substate then Some f else first_match fs config substate)"

definition source_order :: "Filter list" where
  "source_order = [TransferFilter, CallFilter, CreateFilter]"

definition skip_tx :: "SubstateTaskConfig \<Rightarrow> Substate \<Rightarrow> bool" where
  "skip_tx config substate \<longleftrightarrow> first_match source_order config substate \<noteq> None"

subsection \<open>\<open>ExecuteBlock\<close>\<close>

text \<open>Decimal text of a number, as \<open>%v\<close> prints a \<open>uint64\<close> and an \<open>int\<close>.\<close>

definition digit_char :: "nat \<Rightarrow> char" where
  "digit_char d = ''0123456789'' ! d"

function FormatUint :: "nat \<Rightarrow> string" where
  "FormatUint n = (if n < 10 then [digit_char n] else FormatUint (n div 10) @ [digit_char (n mod 10)])"
  by pat_completeness auto
termination
  by (relation "measure (\<lambda>n. n)") auto

declare FormatUint.simps [simp del]

definition FormatInt :: "int \<Rightarrow> string" where
  "FormatInt i = (if i < 0 then CHR ''-'' # FormatUint (nat (- i)) else FormatUint (nat i))"

text \<open>\<open>fmt.Errorf("%s: %v_%v: %v", pool.Name, block, tx, err)\<close>.\<close>

definition Errorf_block :: "string \<Rightarrow> uint64 \<Rightarrow> int \<Rightarrow> string \<Rightarrow> string" where
  "Errorf_block name block tx e =
     name @ '': '' @ FormatUint (unat block) @ ''_'' @ FormatInt tx @ '': '' @ e"

text \<open>
  The loop of \<open>ExecuteBlock\<close> over the transactions that remain, with the current value
  of \<open>numTx\<close>. It returns the two results of the Go function and, next to them, the
  transaction indices on which \<open>TaskFunc\<close> was called, in the order of the calls.
\<close>

fun run_block ::
  "SubstateTaskPool \<Rightarrow> uint64 \<Rightarrow> (int \<times> Substate) list \<Rightarrow> int64 \<Rightarrow>
   (int64 \<times> string option) \<times> int list" where
  "run_block pool block [] numTx = ((numTx, None), [])"
| "run_block pool block ((tx, substate) # rest) numTx =
     (if skip_tx (Config pool) substate then run_block pool block rest numTx
      else case TaskFunc pool block tx substate of
             Some e \<Rightarrow> ((numTx, Some (Errorf_block (Name pool) block tx e)), [tx])
           | None \<Rightarrow>
               (case run_block pool block rest (numTx + 1) of
                  (r, calls) \<Rightarrow> (r, tx # calls)))"

definition ExecuteBlock :: "SubstateTaskPool \<Rightarrow> uint64 \<Rightarrow> int64 \<times> string option" where
  "ExecuteBlock pool block = fst (run_block pool block (DB pool block) 0)"

definition TaskFunc_calls :: "SubstateTaskPool \<Rightarrow> uint64 \<Rightarrow> int list" where
  "TaskFunc_calls pool block = snd (run_block pool block (DB pool block) 0)"

subsection \<open>The body of a worker\<close>

record Counters =
  totalNumBlock :: int64
  totalNumTx :: int64

text \<open>
  What travels on \<open>doneChan\<close>: a block number or an error. The channel has element type
  \<open>interface{}\<close>, and these are the only two kinds of value that are sent on it.
\<close>

datatype Done = DoneBlock uint64 | DoneError string

text \<open>
  The \<open>case block := <-workChan\<close> branch of a worker, from the call of
  \<open>ExecuteBlock\<close> to the value it is about to send: the two \<open>atomic.AddInt64\<close> come
  before the test of \<open>err\<close>.
\<close>

definition worker_task :: "SubstateTaskPool \<Rightarrow> uint64 \<Rightarrow> Counters \<Rightarrow> Counters \<times> Done" where
  "worker_task pool block c =
     (case ExecuteBlock pool block of
        (nt, err) \<Rightarrow>
          (c\<lparr>totalNumTx := totalNumTx c + nt, totalNumBlock := totalNumBlock c + 1\<rparr>,
           case err of Some e \<Rightarrow> DoneError e | None \<Rightarrow> DoneBlock block))"

subsection \<open>Seconds as \<open>float64\<close>\<close>

text \<open>
  A finite \<open>float64\<close> is taken as the real number it denotes, and an operation of
  \<open>float64\<close> arithmetic is the exact operation followed by \<open>round64\<close>, the rounding
  to the nearest number with a significand of 53 bits, a tie going to the even
  significand. The limits of the exponent are left out: the numbers that occur are
  seconds of an \<open>int64\<close> count of nanoseconds, of magnitude between \<open>10^-9\<close> and
  \<open>2^34\<close>, and small constants.
\<close>

definition round_half_even :: "real \<Rightarrow> int" where
  "round_half_even y =
     (if y - of_int \<lfloor>y\<rfloor> < 1 / 2 then \<lfloor>y\<rfloor>
      else if 1 / 2 < y - of_int \<lfloor>y\<rfloor> then \<lfloor>y\<rfloor> + 1
      else if even \<lfloor>y\<rfloor> then \<lfloor>y\<rfloor> else \<lfloor>y\<rfloor> + 1)"

definition round64 :: "real \<Rightarrow> real" where
  "round64 x =
     (if x = 0 then 0
      else of_int (round_half_even (x / 2 powr (of_int \<lfloor>log 2 \<bar>x\<bar>\<rfloor> - 52))) *
           2 powr (of_int \<lfloor>log 2 \<bar>x\<bar>\<rfloor> - 52))"

definition fadd64 :: "real \<Rightarrow> real \<Rightarrow> real" where
  "fadd64 x y = round64 (x + y)"

definition fsub64 :: "real \<Rightarrow> real \<Rightarrow> real" where
  "fsub64 x y = round64 (x - y)"

definition fdiv64 :: "real \<Rightarrow> real \<Rightarrow> real" where
  "fdiv64 x y = round64 (x / y)"

text \<open>
  \<open>Duration.Seconds\<close> of package \<open>time\<close>, for a duration \<open>d\<close> in nanoseconds:
  \<open>sec := d / Second; nsec := d % Second; return float64(sec) + float64(nsec)/1e9\<close>,
  where the division of integers truncates towards zero.
\<close>

definition Seconds :: "int \<Rightarrow> real" where
  "Seconds d =
     (let sec = (if d < 0 then - ((- d) div 1000000000) else d div 1000000000);
          nsec = (if d < 0 then - ((- d) mod 1000000000) else d mod 1000000000)
      in fadd64 (round64 (of_int sec)) (fdiv64 (round64 (of_int nsec)) 1000000000))"

subsection \<open>Progress reports of the coordinator\<close>

text \<open>
  \<open>sec\<close> and \<open>lastSec\<close> are \<open>float64\<close> seconds, and the sums \<open>lastSec+5\<close> and so on
  are sums of \<open>float64\<close>. The rates of a report are quotients of a difference of
  counters and a difference of seconds; a report line keeps the two numerators and the
  denominator.
\<close>

record Baseline =
  lastSec :: real
  lastNumBlock :: int64
  lastNumTx :: int64

record ReportLine =
  elapsed :: real
  number :: uint64
  blocks_since :: int64
  txs_since :: int64
  secs_since :: real

definition report_due :: "BlockSegment \<Rightarrow> uint64 \<Rightarrow> real \<Rightarrow> real \<Rightarrow> bool" where
  "report_due segment block sec last_sec \<longleftrightarrow>
     block = Last segment \<or>
     (block mod 10000 = 0 \<and> sec > fadd64 last_sec 5) \<or>
     (block mod 1000 = 0 \<and> sec > fadd64 last_sec 10) \<or>
     (block mod 100 = 0 \<and> sec > fadd64 last_sec 20) \<or>
     (block mod 10 = 0 \<and> sec > fadd64 last_sec 40) \<or>
     sec > fadd64 last_sec 60"

definition report :: 
  "BlockSegment \<Rightarrow> uint64 \<Rightarrow> real \<Rightarrow> Counters \<Rightarrow> Baseline \<Rightarrow> ReportLine option \<times> Baseline" where
  "report segment block sec c base =
     (if report_due segment block sec (lastSec base)
      then (Some \<lparr>elapsed = sec, number = block,
                  blocks_since = totalNumBlock c - lastNumBlock base,
                  txs_since = totalNumTx c - lastNumTx base,
                  secs_since = fsub64 sec (lastSec base)\<rparr>,
            \<lparr>lastSec = sec, lastNumBlock = totalNumBlock c, lastNumTx = totalNumTx c\<rparr>)
      else (None, base))"

text \<open>
  The cadence as the specification words it, with a multiple of 10 where the program
  has a multiple of 10000; the time that has passed is the difference of the two
  readings.
\<close>

definition report_due_as_specified :: "BlockSegment \<Rightarrow> uint64 \<Rightarrow> real \<Rightarrow> real \<Rightarrow> bool" where
  "report_due_as_specified segment block sec last_sec \<longleftrightarrow>
     block = Last segment \<or>
     (10 dvd unat block \<and> sec - last_sec > 5) \<or>
     (1000 dvd unat block \<and> sec - last_sec > 10) \<or>
     (100 dvd unat block \<and> sec - last_sec > 20) \<or>
     (10 dvd unat block \<and> sec - last_sec > 40) \<or>
     sec - last_sec > 60"

subsection \<open>The kind of destination of a transaction\<close>

text \<open>
  The three situations that the filters tell apart: no destination, a destination
  without code in the input allocation (absent from it, or present with empty code),
  and a destination with code.
\<close>

datatype Destination = NoDestination | PlainAccount | ContractAccount

definition destination :: "Substate \<Rightarrow> Destination" where
  "destination substate =
     (case To (Message substate) of
        None \<Rightarrow> NoDestination
      | Some dest \<Rightarrow>
          (case InputAlloc substate dest of
             None \<Rightarrow> PlainAccount
           | Some account \<Rightarrow> if length (Code account) = 0 then PlainAccount else ContractAccount))"

subsection \<open>A small data base for examples\<close>

definition transfer_tx :: Substate where
  "transfer_tx = \<lparr>InputAlloc = [1 \<mapsto> \<lparr>Code = []\<rparr>], Message = \<lparr>To = Some 1\<rparr>\<rparr>"

definition call_tx :: Substate where
  "call_tx = \<lparr>InputAlloc = [2 \<mapsto> \<lparr>Code = [96, 0]\<rparr>], Message = \<lparr>To = Some 2\<rparr>\<rparr>"

definition create_tx :: Substate where
  "create_tx = \<lparr>InputAlloc = Map.empty, Message = \<lparr>To = None\<rparr>\<rparr>"

definition example_db :: "uint64 \<Rightarrow> (int \<times> Substate) list" where
  "example_db block = [(0, transfer_tx), (1, call_tx), (2, create_tx)]"

definition fails_on_call :: "uint64 \<Rightarrow> int \<Rightarrow> Substate \<Rightarrow> string option" where
  "fails_on_call block tx substate = (if tx = 1 then Some ''boom'' else None)"

definition example_config :: "bool \<Rightarrow> bool \<Rightarrow> bool \<Rightarrow> SubstateTaskConfig" where
  "example_config transfers calls creations =
     \<lparr>Workers = 4, SkipTransferTxs = transfers, SkipCallTxs = calls, SkipCreateTxs = creations\<rparr>"

definition example_pool :: "SubstateTaskConfig \<Rightarrow> SubstateTaskPool" where
  "example_pool config = NewSubstateTaskPool ''replay'' fails_on_call config example_db"

text \<open>A second pool: other name, other transaction indices, other error.\<close>

definition second_db :: "uint64 \<Rightarrow> (int \<times> Substate) list" where
  "second_db block = [(3, create_tx), (25, transfer_tx), (26, call_tx)]"

definition fails_on_transfer :: "uint64 \<Rightarrow> int \<Rightarrow> Substate \<Rightarrow> string option" where
  "fails_on_transfer block tx substate = (if tx = 25 then Some ''gas mismatch'' else None)"

definition second_pool :: SubstateTaskPool where
  "second_pool =
     NewSubstateTaskPool ''substate-cli replay'' fails_on_transfer
       (example_config False True False) second_db"

section \<open>\<open>ExecuteSegment\<close>\<close>

text \<open>
  One call of \<open>ExecuteSegment\<close> runs the producer goroutine, \<open>numWorkers\<close> worker
  goroutines and the calling goroutine, the coordinator, which communicate over three
  buffered channels. The call is modelled as a transition system on the state below;
  each rule of \<open>step\<close> is one move of one goroutine, and Go's choice among the ready
  cases of a \<open>select\<close>, like the scheduling of the goroutines, is the choice of the
  rule. A send on a buffered channel is possible while the buffer is not full, a
  receive while it is not empty; the capacities are \<open>numWorkers * 1000\<close> for
  \<open>workChan\<close> and \<open>doneChan\<close> and \<open>numWorkers\<close> for \<open>stopChan\<close>.

  A worker is at its \<open>select\<close>, or holds a value that it is about to send on
  \<open>doneChan\<close>, or has returned. The producer is in its loop or has returned. The
  coordinator is at the head of its loop, or at the receive from \<open>doneChan\<close> (after
  the report), or in the deferred function that sends the stop signals with so many
  signals still to send, or has returned from \<open>ExecuteSegment\<close>.
\<close>

datatype WorkerState = Selecting | Sending Done | WorkerExited

datatype ProducerState = Producing | ProducerExited

datatype CoordinatorState = AtLoopHead | Receiving | Stopping nat | Returned

text \<open>
  \<open>next_block\<close> is the loop variable of the producer and \<open>cursor\<close> the loop variable
  \<open>block\<close> of the coordinator. \<open>returned\<close> is the error that \<open>ExecuteSegment\<close>
  returns (\<open>None\<close> is \<open>nil\<close>), set when the coordinator leaves its loop. \<open>printed\<close>
  collects the progress reports. The last two fields are history only: the blocks on
  which a worker has run \<open>ExecuteBlock\<close>, and the block numbers that the coordinator
  has taken from \<open>doneChan\<close>, both in the order of the events.
\<close>

record Run =
  producer :: ProducerState
  next_block :: uint64
  workers :: "WorkerState list"
  workChan :: "uint64 list"
  doneChan :: "Done list"
  stopChan :: nat
  counters :: Counters
  coordinator :: CoordinatorState
  cursor :: uint64
  waitMap :: "uint64 set"
  baseline :: Baseline
  printed :: "ReportLine list"
  returned :: "string option"
  executed :: "uint64 list"
  received :: "uint64 list"

definition initial :: "nat \<Rightarrow> BlockSegment \<Rightarrow> Run" where
  "initial numWorkers segment =
     \<lparr>producer = Producing, next_block = First segment,
      workers = replicate numWorkers Selecting,
      workChan = [], doneChan = [], stopChan = 0,
      counters = \<lparr>totalNumBlock = 0, totalNumTx = 0\<rparr>,
      coordinator = AtLoopHead, cursor = First segment, waitMap = {},
      baseline = \<lparr>lastSec = 0, lastNumBlock = 0, lastNumTx = 0\<rparr>,
      printed = [], returned = None, executed = [], received = []\<rparr>"

text \<open>
  The rules, in the order of the source: the producer (its send, its stop, the end of
  its loop), a worker (a block taken from \<open>workChan\<close> and executed, the result sent,
  the stop), and the coordinator (a finished block counted, the report before the
  receive, a block number received, an error received, the end of the loop, a stop
  signal sent, and the return once the wait group is done). In \<open>report_progress\<close> the
  duration \<open>d\<close>, an \<open>int64\<close> count of nanoseconds, is whatever the clock shows.
\<close>

inductive step :: "SubstateTaskPool \<Rightarrow> nat \<Rightarrow> BlockSegment \<Rightarrow> Run \<Rightarrow> Run \<Rightarrow> bool"
  for pool :: SubstateTaskPool and numWorkers :: nat and segment :: BlockSegment
where
  produce:
    "producer s = Producing \<Longrightarrow> next_block s \<le> Last segment \<Longrightarrow>
     length (workChan s) < numWorkers * 1000 \<Longrightarrow>
     step pool numWorkers segment s
       (s\<lparr>workChan := workChan s @ [next_block s], next_block := next_block s + 1\<rparr>)"
| producer_stopped:
    "producer s = Producing \<Longrightarrow> next_block s \<le> Last segment \<Longrightarrow> 0 < stopChan s \<Longrightarrow>
     step pool numWorkers segment s
       (s\<lparr>stopChan := stopChan s - 1, producer := ProducerExited\<rparr>)"
| producer_done:
    "producer s = Producing \<Longrightarrow> \<not> next_block s \<le> Last segment \<Longrightarrow>
     step pool numWorkers segment s (s\<lparr>producer := ProducerExited\<rparr>)"
| worker_take:
    "i < length (workers s) \<Longrightarrow> workers s ! i = Selecting \<Longrightarrow> workChan s = b # rest \<Longrightarrow>
     worker_task pool b (counters s) = (c, d) \<Longrightarrow>
     step pool numWorkers segment s
       (s\<lparr>workChan := rest, counters := c, workers := (workers s)[i := Sending d],
          executed := executed s @ [b]\<rparr>)"
| worker_send:
    "i < length (workers s) \<Longrightarrow> workers s ! i = Sending d \<Longrightarrow>
     length (doneChan s) < numWorkers * 1000 \<Longrightarrow>
     step pool numWorkers segment s
       (s\<lparr>doneChan := doneChan s @ [d], workers := (workers s)[i := Selecting]\<rparr>)"
| worker_stopped:
    "i < length (workers s) \<Longrightarrow> workers s ! i = Selecting \<Longrightarrow> 0 < stopChan s \<Longrightarrow>
     step pool numWorkers segment s
       (s\<lparr>stopChan := stopChan s - 1, workers := (workers s)[i := WorkerExited]\<rparr>)"
| count_block:
    "coordinator s = AtLoopHead \<Longrightarrow> cursor s \<le> Last segment \<Longrightarrow> cursor s \<in> waitMap s \<Longrightarrow>
     step pool numWorkers segment s
       (s\<lparr>waitMap := waitMap s - {cursor s}, cursor := cursor s + 1\<rparr>)"
| report_progress:
    "coordinator s = AtLoopHead \<Longrightarrow> cursor s \<le> Last segment \<Longrightarrow> cursor s \<notin> waitMap s \<Longrightarrow>
     - (2 ^ 63) \<le> d \<Longrightarrow> d < 2 ^ 63 \<Longrightarrow>
     report segment (cursor s) (Seconds d) (counters s) (baseline s) = (line, base) \<Longrightarrow>
     step pool numWorkers segment s
       (s\<lparr>coordinator := Receiving, baseline := base,
          printed := printed s @ (case line of None \<Rightarrow> [] | Some l \<Rightarrow> [l])\<rparr>)"
| receive_block:
    "coordinator s = Receiving \<Longrightarrow> doneChan s = DoneBlock b # rest \<Longrightarrow>
     step pool numWorkers segment s
       (s\<lparr>doneChan := rest, waitMap := insert b (waitMap s), coordinator := AtLoopHead,
          received := received s @ [b]\<rparr>)"
| receive_error:
    "coordinator s = Receiving \<Longrightarrow> doneChan s = DoneError e # rest \<Longrightarrow>
     step pool numWorkers segment s
       (s\<lparr>doneChan := rest, coordinator := Stopping (numWorkers + 1), returned := Some e\<rparr>)"
| loop_done:
    "coordinator s = AtLoopHead \<Longrightarrow> \<not> cursor s \<le> Last segment \<Longrightarrow>
     step pool numWorkers segment s
       (s\<lparr>coordinator := Stopping (numWorkers + 1), returned := None\<rparr>)"
| send_stop:
    "coordinator s = Stopping (Suc k) \<Longrightarrow> stopChan s < numWorkers \<Longrightarrow>
     step pool numWorkers segment s
       (s\<lparr>stopChan := stopChan s + 1, coordinator := Stopping k\<rparr>)"
| return_from_call:
    "coordinator s = Stopping 0 \<Longrightarrow> producer s = ProducerExited \<Longrightarrow>
     \<forall>w \<in> set (workers s). w = WorkerExited \<Longrightarrow>
     step pool numWorkers segment s (s\<lparr>coordinator := Returned\<rparr>)"

definition reachable :: "SubstateTaskPool \<Rightarrow> nat \<Rightarrow> BlockSegment \<Rightarrow> Run \<Rightarrow> bool" where
  "reachable pool numWorkers segment s \<longleftrightarrow>
     (step pool numWorkers segment)\<^sup>*\<^sup>* (initial numWorkers segment) s"

text \<open>The coordinator has left its loop by the \<open>return nil\<close> after it.\<close>

definition loop_exited_on_success :: "Run \<Rightarrow> bool" where
  "loop_exited_on_success s \<longleftrightarrow>
     (coordinator s = Returned \<or> (\<exists>k. coordinator s = Stopping k)) \<and> returned s = None"

subsection \<open>Where the blocks of a run are\<close>

text \<open>
  The block numbers that are on their way from a worker to the coordinator: held by
  a worker that is about to send, or in the buffer of \<open>doneChan\<close>.
\<close>

fun done_blocks :: "Done \<Rightarrow> uint64 multiset" where
  "done_blocks (DoneBlock b) = {#b#}"
| "done_blocks (DoneError e) = {#}"

fun sending_blocks :: "WorkerState \<Rightarrow> uint64 multiset" where
  "sending_blocks (Sending d) = done_blocks d"
| "sending_blocks w = {#}"

definition in_flight :: "Run \<Rightarrow> uint64 multiset" where
  "in_flight s = (\<Sum>w\<leftarrow>workers s. sending_blocks w) + (\<Sum>d\<leftarrow>doneChan s. done_blocks d)"

text \<open>The blocks with the numbers from \<open>i\<close> up to but not including \<open>j\<close>.\<close>

definition block_range :: "nat \<Rightarrow> nat \<Rightarrow> uint64 list" where
  "block_range i j = map of_nat [i..<j]"

definition block_ok :: "SubstateTaskPool \<Rightarrow> uint64 \<Rightarrow> bool" where
  "block_ok pool b \<longleftrightarrow> snd (ExecuteBlock pool b) = None"

subsection \<open>A measure of the work that remains\<close>

fun worker_weight :: "WorkerState \<Rightarrow> nat" where
  "worker_weight Selecting = 1"
| "worker_weight (Sending d) = 5"
| "worker_weight WorkerExited = 0"

fun coordinator_weight :: "nat \<Rightarrow> CoordinatorState \<Rightarrow> nat" where
  "coordinator_weight n AtLoopHead = 2 * n + 5"
| "coordinator_weight n Receiving = 2 * n + 4"
| "coordinator_weight n (Stopping k) = 2 * k + 1"
| "coordinator_weight n Returned = 0"

definition remaining :: "nat \<Rightarrow> BlockSegment \<Rightarrow> Run \<Rightarrow> nat" where
  "remaining numWorkers segment s =
     6 * (Suc (unat (Last segment)) - unat (next_block s)) +
     (if producer s = Producing then 1 else 0) +
     5 * length (workChan s) + (\<Sum>w\<leftarrow>workers s. worker_weight w) +
     3 * length (doneChan s) + stopChan s + card (waitMap s) +
     coordinator_weight numWorkers (coordinator s)"

subsection \<open>Invariants of a run\<close>

text \<open>
  Every block of the segment below the cursor has been received by the coordinator,
  all of them once the cursor has wrapped around; so has every block in \<open>waitMap\<close>;
  and every report was printed with the blocks of the segment below its number
  received.
\<close>

definition prefix_received :: "BlockSegment \<Rightarrow> Run \<Rightarrow> bool" where
  "prefix_received segment s \<longleftrightarrow>
     (\<forall>b. First segment \<le> b \<and> b \<le> Last segment \<and> b < cursor s \<longrightarrow> b \<in> set (received s)) \<and>
     (cursor s < First segment \<longrightarrow>
        (\<forall>b. First segment \<le> b \<and> b \<le> Last segment \<longrightarrow> b \<in> set (received s))) \<and>
     waitMap s \<subseteq> set (received s) \<and>
     (\<forall>l \<in> set (printed s).
        \<forall>b. First segment \<le> b \<and> b \<le> Last segment \<and> b < number l \<longrightarrow> b \<in> set (received s))"

text \<open>
  A block number that a worker holds or that is in \<open>doneChan\<close>, and one that the
  coordinator has received, is the number of a block that a worker has executed
  without an error.
\<close>

definition results_executed :: "SubstateTaskPool \<Rightarrow> Run \<Rightarrow> bool" where
  "results_executed pool s \<longleftrightarrow>
     (\<forall>b. b \<in># in_flight s \<or> b \<in> set (received s) \<longrightarrow>
        b \<in> set (executed s) \<and> block_ok pool b)"

text \<open>
  Once the coordinator has left its loop with \<open>nil\<close>, the cursor is beyond the last
  block, and the stop signals are only sent after the loop.
\<close>

definition loop_exit_sound :: "BlockSegment \<Rightarrow> Run \<Rightarrow> bool" where
  "loop_exit_sound segment s \<longleftrightarrow>
     (loop_exited_on_success s \<longrightarrow> \<not> cursor s \<le> Last segment)"

text \<open>
  The accounting of the blocks, for a segment whose last block is not the largest
  64-bit number: the blocks produced so far are those in \<open>workChan\<close> and those
  executed, each once; the blocks executed without an error are those in flight, those
  in \<open>waitMap\<close> and those that the cursor has passed, each once.
\<close>

definition accounted :: "SubstateTaskPool \<Rightarrow> BlockSegment \<Rightarrow> Run \<Rightarrow> bool" where
  "accounted pool segment s \<longleftrightarrow>
     unat (First segment) \<le> unat (cursor s) \<and>
     unat (cursor s) \<le> unat (next_block s) \<and>
     (unat (next_block s) \<le> Suc (unat (Last segment)) \<or> next_block s = First segment) \<and>
     finite (waitMap s) \<and>
     mset (workChan s) + mset (executed s) =
       mset (block_range (unat (First segment)) (unat (next_block s))) \<and>
     mset (filter (block_ok pool) (executed s)) =
       in_flight s + mset_set (waitMap s) +
       mset (block_range (unat (First segment)) (unat (cursor s)))"

text \<open>The counters are the sums over the blocks executed so far.\<close>

definition counted :: "SubstateTaskPool \<Rightarrow> Run \<Rightarrow> bool" where
  "counted pool s \<longleftrightarrow>
     totalNumTx (counters s) = (\<Sum>b\<leftarrow>executed s. fst (ExecuteBlock pool b)) \<and>
     totalNumBlock (counters s) = of_nat (length (executed s))"

section \<open>Properties of the range parser\<close>

lemma number_group_append:
  assumes "number_text g" and "r = [] \<or> \<not> is_digit_or_underscore (hd r)"
  shows "number_group (g @ r) = Some (g, r)"
proof -
  from assms(1) obtain c cs where g: "g = c # cs" and c: "is_digit c"
    and cs: "\<forall>x \<in> set cs. is_digit_or_underscore x"
    by (cases g) (auto simp: number_text_def)
  from assms(2) have r: "takeWhile is_digit_or_underscore r = []" "dropWhile is_digit_or_underscore r = r"
    by (cases r; simp)+
  from cs have "takeWhile is_digit_or_underscore (cs @ r) = cs" "dropWhile is_digit_or_underscore (cs @ r) = r"
    by (simp_all add: takeWhile_append2 dropWhile_append2 r)
  with g c show ?thesis by (simp add: number_group_def)
qed

lemma number_group_SomeD:
  assumes "number_group s = Some (g, r)"
  shows "number_text g \<and> s = g @ r \<and> (r = [] \<or> \<not> is_digit_or_underscore (hd r))"
proof (cases s)
  case Nil
  with assms show ?thesis by (simp add: number_group_def)
next
  case (Cons c cs)
  with assms have c: "is_digit c" and g: "g = c # takeWhile is_digit_or_underscore cs"
    and r: "r = dropWhile is_digit_or_underscore cs"
    by (auto simp: number_group_def split: if_splits)
  have "\<forall>x \<in> set (takeWhile is_digit_or_underscore cs). is_digit_or_underscore x"
    by (auto dest: set_takeWhileD)
  moreover have "r = [] \<or> \<not> is_digit_or_underscore (hd r)"
    unfolding r by (metis hd_dropWhile)
  ultimately show ?thesis
    using c g r Cons by (simp add: number_text_def)
qed

lemma siunit_head:
  "u = [] \<or> u = ''k'' \<or> u = ''M'' \<Longrightarrow> u = [] \<or> \<not> is_digit_or_underscore (hd u)"
  by (auto simp: is_digit_or_underscore_def is_digit_def)

lemma separator_not_digit: "is_separator c \<Longrightarrow> \<not> is_digit_or_underscore c"
  by (auto simp: is_separator_def is_digit_or_underscore_def is_digit_def)

lemma FindStringSubmatch_single:
  "number_text g \<Longrightarrow> FindStringSubmatch g = Some (g, [], [])"
  using number_group_append [of g "[]"] by (simp add: FindStringSubmatch_def)

lemma FindStringSubmatch_range:
  assumes "number_text g1" "is_separator sep" "number_text g2" "u = [] \<or> u = ''k'' \<or> u = ''M''"
  shows "FindStringSubmatch (g1 @ sep # g2 @ u) = Some (g1, g2, u)"
proof -
  have 1: "number_group (g1 @ sep # g2 @ u) = Some (g1, sep # g2 @ u)"
    using assms(1,2) by (intro number_group_append) (simp_all add: separator_not_digit)
  have 2: "number_group (g2 @ u) = Some (g2, u)"
    using assms(3,4) by (intro number_group_append siunit_head)
  show ?thesis
    using assms(2,4) by (simp add: FindStringSubmatch_def 1 2)
qed

lemma FindStringSubmatch_SomeD:
  assumes "FindStringSubmatch s = Some (g1, g2, u)"
  shows "(s = g1 \<and> number_text g1 \<and> g2 = [] \<and> u = []) \<or>
         (\<exists>sep. s = g1 @ sep # g2 @ u \<and> number_text g1 \<and> is_separator sep \<and> number_text g2 \<and>
                (u = [] \<or> u = ''k'' \<or> u = ''M''))"
proof -
  from assms obtain r where ng: "number_group s = Some (g1, r)"
    by (auto simp: FindStringSubmatch_def split: option.splits list.splits if_splits)
  note a = number_group_SomeD [OF ng]
  show ?thesis
  proof (cases r)
    case Nil
    with assms ng a show ?thesis by (simp add: FindStringSubmatch_def)
  next
    case (Cons sep r')
    with assms ng have sep: "is_separator sep"
      and ng2: "number_group r' = Some (g2, u)" and u: "u = [] \<or> u = ''k'' \<or> u = ''M''"
      by (auto simp: FindStringSubmatch_def split: option.splits if_splits)
    note b = number_group_SomeD [OF ng2]
    from a b Cons sep u show ?thesis by auto
  qed
qed

lemma MatchString_iff_grammar: "MatchString s \<longleftrightarrow> segment_grammar s"
proof
  assume "MatchString s"
  then obtain g1 g2 u where "FindStringSubmatch s = Some (g1, g2, u)"
    by (auto simp: MatchString_def)
  from FindStringSubmatch_SomeD [OF this] show "segment_grammar s"
    unfolding segment_grammar_def by blast
next
  assume "segment_grammar s"
  then consider "number_text s"
    | g1 sep g2 u where "s = g1 @ sep # g2 @ u" "number_text g1" "is_separator sep"
        "number_text g2" "u = [] \<or> u = ''k'' \<or> u = ''M''"
    unfolding segment_grammar_def by blast
  then show "MatchString s"
  proof cases
    case 1
    then show ?thesis by (simp add: MatchString_def FindStringSubmatch_single)
  next
    case 2
    from FindStringSubmatch_range [OF 2(2-5)] 2(1) show ?thesis
      by (simp add: MatchString_def)
  qed
qed


lemma foldl_digits_mono: "n \<le> foldl (\<lambda>n c. n * 10 + digit_value c) n ds"
proof (induction ds arbitrary: n)
  case Nil
  show ?case by simp
next
  case (Cons c ds)
  have "n \<le> n * 10 + digit_value c" by simp
  also have "\<dots> \<le> foldl (\<lambda>n c. n * 10 + digit_value c) (n * 10 + digit_value c) ds"
    by (rule Cons.IH)
  finally show ?case by simp
qed

lemma parse_digits_eq:
  "\<forall>c \<in> set ds. is_digit c \<Longrightarrow> n \<le> maxUint64 \<Longrightarrow>
   parse_digits n ds =
     (if foldl (\<lambda>n c. n * 10 + digit_value c) n ds \<le> maxUint64
      then Inr (foldl (\<lambda>n c. n * 10 + digit_value c) n ds) else Inl ErrRange)"
proof (induction ds arbitrary: n)
  case Nil
  then show ?case by simp
next
  case (Cons c ds)
  show ?case
  proof (cases "n * 10 + digit_value c > maxUint64")
    case True
    with foldl_digits_mono [of "n * 10 + digit_value c" ds] Cons.prems show ?thesis
      by simp
  next
    case False
    with Cons show ?thesis by simp
  qed
qed

lemma ParseUint_digits:
  assumes "ds \<noteq> []" and "\<forall>c \<in> set ds. is_digit c"
  shows "ParseUint ds =
     (if decimal ds \<le> maxUint64 then Inr (of_nat (decimal ds)) else Inl ErrRange)"
  using assms by (simp add: ParseUint_def parse_digits_eq decimal_def maxUint64_def)

lemma ReplaceAll_number_text:
  assumes "number_text g"
  shows "ReplaceAll_underscore g \<noteq> [] \<and> (\<forall>c \<in> set (ReplaceAll_underscore g). is_digit c)"
proof -
  from assms obtain c cs where g: "g = c # cs" and c: "is_digit c"
    and cs: "\<forall>x \<in> set cs. is_digit_or_underscore x"
    by (cases g) (auto simp: number_text_def)
  from c have "c \<noteq> CHR ''_''" by (auto simp: is_digit_def)
  with g c cs show ?thesis
    by (auto simp: ReplaceAll_underscore_def is_digit_or_underscore_def)
qed

lemma ParseUint_number_text:
  "number_text g \<Longrightarrow>
   ParseUint (ReplaceAll_underscore g) =
     (if decimal (ReplaceAll_underscore g) \<le> maxUint64
      then Inr (of_nat (decimal (ReplaceAll_underscore g))) else Inl ErrRange)"
  using ReplaceAll_number_text [of g] by (intro ParseUint_digits) simp_all

lemma ParseBlockSegment_single:
  assumes "number_text g"
  shows "ParseBlockSegment g =
     (if decimal (ReplaceAll_underscore g) > maxUint64 then Inl (InvalidFirst ErrRange)
      else Inr \<lparr>First = of_nat (decimal (ReplaceAll_underscore g)),
                Last = of_nat (decimal (ReplaceAll_underscore g))\<rparr>)"
proof -
  have "ReplaceAll_underscore [] = []" by (simp add: ReplaceAll_underscore_def)
  then show ?thesis
    using assms
    by (simp add: ParseBlockSegment_def FindStringSubmatch_single ParseUint_number_text
        scale_siunit_def)
qed

lemma ParseBlockSegment_range:
  assumes "number_text g1" "is_separator sep" "number_text g2" "u = [] \<or> u = ''k'' \<or> u = ''M''"
  shows "ParseBlockSegment (g1 @ sep # g2 @ u) =
     (if decimal (ReplaceAll_underscore g1) > maxUint64 then Inl (InvalidFirst ErrRange)
      else if decimal (ReplaceAll_underscore g2) > maxUint64 then Inl (InvalidLast ErrRange)
      else let seg = scale_siunit u \<lparr>First = of_nat (decimal (ReplaceAll_underscore g1)),
                                     Last = of_nat (decimal (ReplaceAll_underscore g2))\<rparr>
           in if First seg > Last seg then Inl (FirstLargerThanLast (First seg) (Last seg))
              else Inr seg)"
proof -
  have ne: "ReplaceAll_underscore g2 \<noteq> []"
    using ReplaceAll_number_text [OF assms(3)] by simp
  show ?thesis
    by (simp add: ParseBlockSegment_def FindStringSubmatch_range [OF assms]
        ParseUint_number_text [OF assms(1)] ParseUint_number_text [OF assms(3)] ne Let_def)
qed

lemma ParseBlockSegment_ordered:
  "ParseBlockSegment s = Inr seg \<Longrightarrow> First seg \<le> Last seg"
  by (auto simp: ParseBlockSegment_def Let_def split: option.splits sum.splits if_splits)

lemma ParseBlockSegment_no_match:
  "\<not> segment_grammar s \<Longrightarrow> ParseBlockSegment s = Inl (InvalidString s)"
  using MatchString_iff_grammar [of s]
  by (cases "FindStringSubmatch s") (simp_all add: ParseBlockSegment_def MatchString_def)

lemma dropWhile_comma:
  assumes "CHR '','' \<in> set s"
  shows "dropWhile (\<lambda>c. c \<noteq> CHR '','') s = CHR '','' # tl (dropWhile (\<lambda>c. c \<noteq> CHR '','') s)"
proof -
  from assms have ne: "dropWhile (\<lambda>c. c \<noteq> CHR '','') s \<noteq> []" by simp
  from hd_dropWhile [OF ne] have "hd (dropWhile (\<lambda>c. c \<noteq> CHR '','') s) = CHR '',''" by simp
  with ne show ?thesis by (cases "dropWhile (\<lambda>c. c \<noteq> CHR '','') s") simp_all
qed

lemma Split_comma_not_Nil: "Split_comma s \<noteq> []"
  by (subst Split_comma.simps) simp

lemma Join_Split_comma: "Join_comma (Split_comma s) = s"
proof (induction s rule: Split_comma.induct)
  case (1 s)
  show ?case
  proof (cases "CHR '','' \<in> set s")
    case True
    let ?r = "tl (dropWhile (\<lambda>c. c \<noteq> CHR '','') s)"
    from True have d: "dropWhile (\<lambda>c. c \<noteq> CHR '','') s = CHR '','' # ?r"
      by (rule dropWhile_comma)
    obtain q qs where q: "Split_comma ?r = q # qs"
      using Split_comma_not_Nil [of ?r] by (cases "Split_comma ?r") auto
    have "Join_comma (Split_comma s) = takeWhile (\<lambda>c. c \<noteq> CHR '','') s @ CHR '','' # Join_comma (Split_comma ?r)"
      using True q by (subst Split_comma.simps) simp
    also have "\<dots> = takeWhile (\<lambda>c. c \<noteq> CHR '','') s @ CHR '','' # ?r"
      using "1.IH" [OF True] by simp
    also have "\<dots> = s"
      using d takeWhile_dropWhile_id [of "\<lambda>c. c \<noteq> CHR '',''" s] by simp
    finally show ?thesis .
  next
    case False
    then show ?thesis by (subst Split_comma.simps) simp
  qed
qed

lemma Split_comma_pieces: "p \<in> set (Split_comma s) \<Longrightarrow> CHR '','' \<notin> set p"
proof (induction s rule: Split_comma.induct)
  case (1 s)
  show ?case
  proof (cases "CHR '','' \<in> set s")
    case True
    from "1.prems" True
    consider "p = takeWhile (\<lambda>c. c \<noteq> CHR '','') s"
      | "p \<in> set (Split_comma (tl (dropWhile (\<lambda>c. c \<noteq> CHR '','') s)))"
      by (subst (asm) Split_comma.simps) auto
    then show ?thesis
    proof cases
      case 1
      then show ?thesis by (auto dest: set_takeWhileD)
    next
      case 2
      with "1.IH" True show ?thesis by simp
    qed
  next
    case False
    with "1.prems" show ?thesis by (subst (asm) Split_comma.simps) simp
  qed
qed

lemma Split_comma_length: "length (Split_comma s) = Suc (count_list s (CHR '',''))"
proof (induction s rule: Split_comma.induct)
  case (1 s)
  show ?case
  proof (cases "CHR '','' \<in> set s")
    case True
    let ?t = "takeWhile (\<lambda>c. c \<noteq> CHR '','') s"
    let ?r = "tl (dropWhile (\<lambda>c. c \<noteq> CHR '','') s)"
    from True have d: "dropWhile (\<lambda>c. c \<noteq> CHR '','') s = CHR '','' # ?r"
      by (rule dropWhile_comma)
    have s: "s = ?t @ CHR '','' # ?r"
      using d takeWhile_dropWhile_id [of "\<lambda>c. c \<noteq> CHR '',''" s] by simp
    have "count_list ?t (CHR '','') = 0"
      by (rule count_notin) (auto dest: set_takeWhileD)
    then have "count_list s (CHR '','') = Suc (count_list ?r (CHR '',''))"
      by (subst s) simp
    moreover have "length (Split_comma s) = Suc (length (Split_comma ?r))"
      using True by (subst Split_comma.simps) simp
    ultimately show ?thesis using "1.IH" [OF True] by simp
  next
    case False
    then show ?thesis by (subst Split_comma.simps) (simp add: count_notin)
  qed
qed

lemma parse_pieces_all:
  "\<forall>p \<in> set ps. \<exists>seg. ParseBlockSegment p = Inr seg \<Longrightarrow>
   \<exists>segs. parse_pieces ps = Inr segs \<and> length segs = length ps \<and>
          (\<forall>i < length ps. ParseBlockSegment (ps ! i) = Inr (segs ! i))"
proof (induction ps)
  case Nil
  show ?case by simp
next
  case (Cons p ps)
  from Cons.prems obtain seg where seg: "ParseBlockSegment p = Inr seg" by auto
  from Cons obtain segs where segs: "parse_pieces ps = Inr segs" "length segs = length ps"
    "\<forall>i < length ps. ParseBlockSegment (ps ! i) = Inr (segs ! i)" by auto
  have "\<forall>i < length (p # ps). ParseBlockSegment ((p # ps) ! i) = Inr ((seg # segs) ! i)"
    using seg segs(3) by (auto simp: nth_Cons split: nat.splits)
  with seg segs show ?case by simp
qed

lemma parse_pieces_first_error:
  "i < length ps \<Longrightarrow> ParseBlockSegment (ps ! i) = Inl e \<Longrightarrow>
   \<forall>j < i. \<exists>seg. ParseBlockSegment (ps ! j) = Inr seg \<Longrightarrow>
   parse_pieces ps = Inl e"
proof (induction ps arbitrary: i)
  case Nil
  then show ?case by simp
next
  case (Cons p ps)
  show ?case
  proof (cases i)
    case 0
    with Cons.prems show ?thesis by simp
  next
    case (Suc k)
    with Cons.prems(3) obtain seg where seg: "ParseBlockSegment p = Inr seg" by fastforce
    have "parse_pieces ps = Inl e"
    proof (rule Cons.IH [of k])
      show "k < length ps" using Cons.prems(1) Suc by simp
      show "ParseBlockSegment (ps ! k) = Inl e" using Cons.prems(2) Suc by simp
      show "\<forall>j<k. \<exists>seg. ParseBlockSegment (ps ! j) = Inr seg"
        using Cons.prems(3) Suc by fastforce
    qed
    with seg show ?thesis by simp
  qed
qed

lemma Split_comma_Nil: "Split_comma [] = [[]]"
  by (subst Split_comma.simps) simp

lemma Split_comma_with:
  "CHR '','' \<in> set s \<Longrightarrow>
   Split_comma s = takeWhile (\<lambda>c. c \<noteq> CHR '','') s #
                   Split_comma (tl (dropWhile (\<lambda>c. c \<noteq> CHR '','') s))"
  by (subst Split_comma.simps) simp

lemma Split_comma_without: "CHR '','' \<notin> set s \<Longrightarrow> Split_comma s = [s]"
  by (subst Split_comma.simps) simp

lemma Split_comma_Cons:
  "Split_comma (c # cs) =
     (if c = CHR '','' then [] # Split_comma cs
      else case Split_comma cs of p # ps \<Rightarrow> (c # p) # ps)"
proof (cases "c = CHR '',''")
  case True
  then show ?thesis by (simp add: Split_comma_with)
next
  case False
  show ?thesis
  proof (cases "CHR '','' \<in> set cs")
    case True
    with False show ?thesis
      by (simp add: Split_comma_with [of "c # cs"] Split_comma_with [of cs])
  next
    case no: False
    with False show ?thesis
      by (simp add: Split_comma_without [of "c # cs"] Split_comma_without [of cs])
  qed
qed

lemma Split_comma_example:
  "Split_comma ''1-2k,5-1,abc'' = [''1-2k'', ''5-1'', ''abc'']"
  by (simp add: Split_comma_Nil Split_comma_Cons)


lemmas parse_defs = ParseBlockSegment_def FindStringSubmatch_def number_group_def is_digit_def
  is_digit_or_underscore_def is_separator_def ParseUint_def ReplaceAll_underscore_def
  scale_siunit_def maxUint64_def digit_value_def

lemma ParseBlockSegment_1001:
  "ParseBlockSegment ''1001'' = Inr \<lparr>First = 1001, Last = 1001\<rparr>"
  by (simp add: parse_defs)

lemma ParseBlockSegment_1_001_2_000:
  "ParseBlockSegment ''1_001-2_000'' = Inr \<lparr>First = 1001, Last = 2000\<rparr>"
  by (simp add: parse_defs)

lemma ParseBlockSegment_1_2k:
  "ParseBlockSegment ''1-2k'' = Inr \<lparr>First = 1001, Last = 2000\<rparr>"
  by (simp add: parse_defs)

lemma ParseBlockSegment_1_2M:
  "ParseBlockSegment ''1-2M'' = Inr \<lparr>First = 1000001, Last = 2000000\<rparr>"
  by (simp add: parse_defs)

lemma ParseBlockSegment_abc:
  "ParseBlockSegment ''abc'' = Inl (InvalidString ''abc'')"
  by (simp add: parse_defs)

lemma ParseBlockSegment_5_1:
  "ParseBlockSegment ''5-1'' = Inl (FirstLargerThanLast 5 1)"
  by (simp add: parse_defs)

lemma decimal_Nil: "decimal [] = 0"
  by (simp add: decimal_def)

lemma ReplaceAll_underscore_Nil: "ReplaceAll_underscore [] = []"
  by (simp add: ReplaceAll_underscore_def)

lemma ParseBlockSegment_submatch:
  assumes "FindStringSubmatch s = Some (g1, g2, u)"
  shows "ParseBlockSegment s =
     (if maxUint64 < decimal (ReplaceAll_underscore g1) then Inl (InvalidFirst ErrRange)
      else if maxUint64 < decimal (ReplaceAll_underscore g2) then Inl (InvalidLast ErrRange)
      else let seg = scale_siunit u
                 \<lparr>First = of_nat (decimal (ReplaceAll_underscore g1)),
                  Last = of_nat (decimal (ReplaceAll_underscore (if g2 = [] then g1 else g2)))\<rparr>
           in if First seg > Last seg then Inl (FirstLargerThanLast (First seg) (Last seg))
              else Inr seg)"
proof -
  from FindStringSubmatch_SomeD [OF assms]
  consider "s = g1" "number_text g1" "g2 = []" "u = []"
    | sep where "s = g1 @ sep # g2 @ u" "number_text g1" "is_separator sep" "number_text g2"
        "u = [] \<or> u = ''k'' \<or> u = ''M''"
    by blast
  then show ?thesis
  proof cases
    case 1
    then show ?thesis
      by (simp add: ParseBlockSegment_single ReplaceAll_underscore_Nil decimal_Nil
          scale_siunit_def)
  next
    case 2
    from 2(4) have "g2 \<noteq> []" by (auto simp: number_text_def)
    then show ?thesis
      unfolding 2(1) ParseBlockSegment_range [OF 2(2-5)] by simp
  qed
qed

text \<open>
  Claim C5. Every interval that \<open>ParseBlockSegment\<close> returns has \<open>First \<le> Last\<close>.
  The four strings of the specification parse to \<open>(1001,1001)\<close>, \<open>(1001,2000)\<close>,
  \<open>(1001,2000)\<close> and \<open>(1000001,2000000)\<close>. For a range with a unit, the returned
  bounds are the first number times the unit plus one and the last number times the
  unit, where the unit is 1000 for \<open>k\<close> and 1000000 for \<open>M\<close>; the products are those of
  64-bit unsigned arithmetic.
\<close>

theorem ParseBlockSegment_interval:
  "(ParseBlockSegment s = Inr seg \<longrightarrow> First seg \<le> Last seg) \<and>
   ParseBlockSegment ''1001'' = Inr \<lparr>First = 1001, Last = 1001\<rparr> \<and>
   ParseBlockSegment ''1_001-2_000'' = Inr \<lparr>First = 1001, Last = 2000\<rparr> \<and>
   ParseBlockSegment ''1-2k'' = Inr \<lparr>First = 1001, Last = 2000\<rparr> \<and>
   ParseBlockSegment ''1-2M'' = Inr \<lparr>First = 1000001, Last = 2000000\<rparr> \<and>
   (number_text g1 \<and> is_separator sep \<and> number_text g2 \<and> (u = ''k'' \<or> u = ''M'') \<and>
    ParseBlockSegment (g1 @ sep # g2 @ u) = Inr seg' \<longrightarrow>
      First seg' = of_nat (decimal (ReplaceAll_underscore g1)) * (if u = ''k'' then 1000 else 1000000) + 1 \<and>
      Last seg' = of_nat (decimal (ReplaceAll_underscore g2)) * (if u = ''k'' then 1000 else 1000000))"
proof -
  have scaled: "First seg' = of_nat (decimal (ReplaceAll_underscore g1)) * (if u = ''k'' then 1000 else 1000000) + 1 \<and>
      Last seg' = of_nat (decimal (ReplaceAll_underscore g2)) * (if u = ''k'' then 1000 else 1000000)"
    if a: "number_text g1" "is_separator sep" "number_text g2" "u = ''k'' \<or> u = ''M''"
      and b: "ParseBlockSegment (g1 @ sep # g2 @ u) = Inr seg'"
  proof -
    from a(4) have u: "u = [] \<or> u = ''k'' \<or> u = ''M''" by blast
    from a(4) b show ?thesis
      unfolding ParseBlockSegment_range [OF a(1-3) u]
      by (auto simp: Let_def scale_siunit_def split: if_splits)
  qed
  show ?thesis
    using scaled
    by (simp add: ParseBlockSegment_ordered ParseBlockSegment_1001 ParseBlockSegment_1_001_2_000
        ParseBlockSegment_1_2k ParseBlockSegment_1_2M)
qed

theorem ParseBlockSegment_interval_witness:
  "ParseBlockSegment ''3-4k'' = Inr \<lparr>First = 3001, Last = 4000\<rparr> \<and>
   First \<lparr>First = 3001, Last = 4000\<rparr> \<le> Last \<lparr>First = 3001, Last = 4000\<rparr> \<and>
   number_text ''3'' \<and> is_separator (CHR ''-'') \<and> number_text ''4'' \<and>
   First \<lparr>First = 3001, Last = 4000\<rparr> = of_nat (decimal (ReplaceAll_underscore ''3'')) * 1000 + 1 \<and>
   Last \<lparr>First = 3001, Last = 4000\<rparr> = of_nat (decimal (ReplaceAll_underscore ''4'')) * 1000"
proof -
  have p: "ParseBlockSegment ''3-4k'' = Inr \<lparr>First = 3001, Last = 4000\<rparr>"
    by (simp add: parse_defs)
  have n: "number_text ''3''" "is_separator (CHR ''-'')" "number_text ''4''"
    by (simp_all add: number_text_def is_separator_def is_digit_def)
  from ParseBlockSegment_interval [of "''3-4k''" "\<lparr>First = 3001, Last = 4000\<rparr>" "''3''"
      "CHR ''-''" "''4''" "''k''" "\<lparr>First = 3001, Last = 4000\<rparr>"] p n
  show ?thesis by simp
qed

text \<open>
  Claim C6. A string outside the grammar of the pattern is rejected with the
  invalid-string error (\<open>InvalidFormat\<close>), for example \<open>abc\<close>. A string in the grammar
  one of whose numbers \<open>ParseUint\<close> rejects is rejected with an invalid-number error;
  for the numbers of a matching string that is exactly when the decimal value exceeds
  \<open>2^64 - 1\<close>. A string whose numbers parse and whose resulting first bound exceeds the
  last is rejected with the first-larger-than-last error (\<open>RangeInverted\<close>), for example
  \<open>5-1\<close>. In each case the result is the error alone, \<open>Inl\<close>, with no interval.
\<close>

theorem ParseBlockSegment_failures:
  "(\<not> segment_grammar s1 \<longrightarrow> ParseBlockSegment s1 = Inl (InvalidString s1)) \<and>
   (FindStringSubmatch s2 = Some (g1, g2, u) \<and>
    (ParseUint (ReplaceAll_underscore g1) = Inl ne \<or>
     g2 \<noteq> [] \<and> ParseUint (ReplaceAll_underscore g2) = Inl ne) \<longrightarrow>
      (\<exists>e. ParseBlockSegment s2 = Inl e \<and> InvalidNumber e)) \<and>
   (FindStringSubmatch s3 = Some (h1, h2, v) \<and>
    (maxUint64 < decimal (ReplaceAll_underscore h1) \<or>
     maxUint64 < decimal (ReplaceAll_underscore h2)) \<longrightarrow>
      (\<exists>e. ParseBlockSegment s3 = Inl e \<and> InvalidNumber e)) \<and>
   (FindStringSubmatch s4 = Some (k1, k2, w) \<and>
    decimal (ReplaceAll_underscore k1) \<le> maxUint64 \<and>
    decimal (ReplaceAll_underscore k2) \<le> maxUint64 \<and>
    seg = scale_siunit w
            \<lparr>First = of_nat (decimal (ReplaceAll_underscore k1)),
             Last = of_nat (decimal (ReplaceAll_underscore (if k2 = [] then k1 else k2)))\<rparr> \<and>
    First seg > Last seg \<longrightarrow>
      ParseBlockSegment s4 = Inl (FirstLargerThanLast (First seg) (Last seg))) \<and>
   ParseBlockSegment ''abc'' = Inl (InvalidString ''abc'') \<and>
   ParseBlockSegment ''5-1'' = Inl (FirstLargerThanLast 5 1)"
proof -
  have a: "\<exists>e. ParseBlockSegment s2 = Inl e \<and> InvalidNumber e"
    if "FindStringSubmatch s2 = Some (g1, g2, u)"
      and "ParseUint (ReplaceAll_underscore g1) = Inl ne \<or>
           g2 \<noteq> [] \<and> ParseUint (ReplaceAll_underscore g2) = Inl ne"
  proof -
    from FindStringSubmatch_SomeD [OF that(1)]
    have g1: "number_text g1" and g2: "g2 = [] \<or> number_text g2" by auto
    from that(2) g1 g2
    have "maxUint64 < decimal (ReplaceAll_underscore g1) \<or>
          maxUint64 < decimal (ReplaceAll_underscore g2)"
      by (auto simp: ParseUint_number_text split: if_splits)
    then show ?thesis
      unfolding ParseBlockSegment_submatch [OF that(1)] by auto
  qed
  have b: "\<exists>e. ParseBlockSegment s3 = Inl e \<and> InvalidNumber e"
    if "FindStringSubmatch s3 = Some (h1, h2, v)"
      and "maxUint64 < decimal (ReplaceAll_underscore h1) \<or>
           maxUint64 < decimal (ReplaceAll_underscore h2)"
    using that(2) unfolding ParseBlockSegment_submatch [OF that(1)] by auto
  have c: "ParseBlockSegment s4 = Inl (FirstLargerThanLast (First seg) (Last seg))"
    if "FindStringSubmatch s4 = Some (k1, k2, w)"
      and "decimal (ReplaceAll_underscore k1) \<le> maxUint64"
      and "decimal (ReplaceAll_underscore k2) \<le> maxUint64"
      and "seg = scale_siunit w
            \<lparr>First = of_nat (decimal (ReplaceAll_underscore k1)),
             Last = of_nat (decimal (ReplaceAll_underscore (if k2 = [] then k1 else k2)))\<rparr>"
      and "First seg > Last seg"
    using that(2-5) unfolding ParseBlockSegment_submatch [OF that(1)]
    by (simp add: Let_def)
  show ?thesis
    using a b c ParseBlockSegment_no_match [of s1] ParseBlockSegment_abc ParseBlockSegment_5_1
    by blast
qed

theorem ParseBlockSegment_failures_witness:
  "\<not> segment_grammar ''1-2x'' \<and>
   ParseBlockSegment ''1-2x'' = Inl (InvalidString ''1-2x'') \<and>
   FindStringSubmatch ''1-18446744073709551616'' = Some (''1'', ''18446744073709551616'', []) \<and>
   ParseUint (ReplaceAll_underscore ''18446744073709551616'') = Inl ErrRange \<and>
   maxUint64 < decimal (ReplaceAll_underscore ''18446744073709551616'') \<and>
   ParseBlockSegment ''1-18446744073709551616'' = Inl (InvalidLast ErrRange) \<and>
   FindStringSubmatch ''7~6k'' = Some (''7'', ''6'', ''k'') \<and>
   ParseBlockSegment ''7~6k'' = Inl (FirstLargerThanLast 7001 6000)"
proof -
  have g: "\<not> segment_grammar ''1-2x''"
    unfolding MatchString_iff_grammar [symmetric] by (simp add: MatchString_def parse_defs)
  have m: "FindStringSubmatch ''1-18446744073709551616'' = Some (''1'', ''18446744073709551616'', [])"
    by (simp add: parse_defs)
  have p: "ParseUint (ReplaceAll_underscore ''18446744073709551616'') = Inl ErrRange"
    by (simp add: parse_defs)
  have d: "maxUint64 < decimal (ReplaceAll_underscore ''18446744073709551616'')"
    by (simp add: parse_defs decimal_def)
  have r: "ParseBlockSegment ''1-18446744073709551616'' = Inl (InvalidLast ErrRange)"
    by (simp add: parse_defs)
  have m4: "FindStringSubmatch ''7~6k'' = Some (''7'', ''6'', ''k'')"
    by (simp add: parse_defs)
  have d4: "decimal (ReplaceAll_underscore ''7'') = 7" "decimal (ReplaceAll_underscore ''6'') = 6"
    by (simp_all add: parse_defs decimal_def)
  have s4: "scale_siunit ''k'' \<lparr>First = 7, Last = 6\<rparr> = \<lparr>First = 7001, Last = 6000\<rparr>"
    by (simp add: scale_siunit_def)
  from ParseBlockSegment_failures [of "''1-2x''" "''1-18446744073709551616''" "''1''"
      "''18446744073709551616''" "[]" ErrRange "''1-18446744073709551616''" "''1''"
      "''18446744073709551616''" "[]" "''7~6k''" "''7''" "''6''" "''k''"
      "\<lparr>First = 7001, Last = 6000\<rparr>"]
  have "ParseBlockSegment ''1-2x'' = Inl (InvalidString ''1-2x'')"
    and "ParseBlockSegment ''7~6k'' = Inl (FirstLargerThanLast 7001 6000)"
    using g m4 d4 s4 by (simp_all add: maxUint64_def)
  with g m p d r m4 show ?thesis by simp
qed

text \<open>
  Claim C9. \<open>ParseBlockSegmentList\<close> cuts its input at the commas: the pieces contain
  no comma, there is one more piece than there are commas, and joined with commas they
  give the input back. If every piece parses, the result is the list of the intervals
  of the pieces, one for each piece and in the order of the pieces. If a piece fails
  and all pieces before it parse, the result is the error of that piece and no list.
\<close>

theorem ParseBlockSegmentList_pieces:
  "Join_comma (Split_comma s) = s \<and>
   length (Split_comma s) = Suc (count_list s (CHR '','')) \<and>
   (\<forall>p \<in> set (Split_comma s). CHR '','' \<notin> set p) \<and>
   ((\<forall>p \<in> set (Split_comma s). \<exists>seg. ParseBlockSegment p = Inr seg) \<longrightarrow>
      (\<exists>segs. ParseBlockSegmentList s = Inr segs \<and> length segs = length (Split_comma s) \<and>
         (\<forall>i < length (Split_comma s). ParseBlockSegment (Split_comma s ! i) = Inr (segs ! i)))) \<and>
   (i < length (Split_comma s) \<and> ParseBlockSegment (Split_comma s ! i) = Inl e \<and>
    (\<forall>j < i. \<exists>seg. ParseBlockSegment (Split_comma s ! j) = Inr seg) \<longrightarrow>
      ParseBlockSegmentList s = Inl e)"
  unfolding ParseBlockSegmentList_def
  using parse_pieces_all [of "Split_comma s"] parse_pieces_first_error [of i "Split_comma s" e]
    Split_comma_pieces [of _ s]
  by (simp add: Join_Split_comma Split_comma_length)

theorem ParseBlockSegmentList_pieces_witness:
  "Split_comma ''1-2k,5-1,abc'' = [''1-2k'', ''5-1'', ''abc''] \<and>
   ParseBlockSegment ''1-2k'' = Inr \<lparr>First = 1001, Last = 2000\<rparr> \<and>
   ParseBlockSegment ''5-1'' = Inl (FirstLargerThanLast 5 1) \<and>
   ParseBlockSegmentList ''1-2k,5-1,abc'' = Inl (FirstLargerThanLast 5 1) \<and>
   Split_comma ''1-2k,1001'' = [''1-2k'', ''1001''] \<and>
   ParseBlockSegmentList ''1-2k,1001'' =
     Inr [\<lparr>First = 1001, Last = 2000\<rparr>, \<lparr>First = 1001, Last = 1001\<rparr>]"
proof -
  have s1: "Split_comma ''1-2k,5-1,abc'' = [''1-2k'', ''5-1'', ''abc'']"
    by (simp add: Split_comma_Nil Split_comma_Cons)
  have s2: "Split_comma ''1-2k,1001'' = [''1-2k'', ''1001'']"
    by (simp add: Split_comma_Nil Split_comma_Cons)
  note p = ParseBlockSegment_1_2k ParseBlockSegment_5_1 ParseBlockSegment_1001
  have e: "ParseBlockSegmentList ''1-2k,5-1,abc'' = Inl (FirstLargerThanLast 5 1)"
    using ParseBlockSegmentList_pieces [of "''1-2k,5-1,abc''" 1 "FirstLargerThanLast 5 1"]
    by (simp add: s1 p)
  from ParseBlockSegmentList_pieces [of "''1-2k,1001''" 0 "FirstLargerThanLast 5 1"]
  obtain segs where segs: "ParseBlockSegmentList ''1-2k,1001'' = Inr segs" "length segs = 2"
    "\<forall>i<2. ParseBlockSegment ([''1-2k'', ''1001''] ! i) = Inr (segs ! i)"
    by (auto simp: s2 p)
  from segs(3) have "segs ! 0 = \<lparr>First = 1001, Last = 2000\<rparr>" "segs ! 1 = \<lparr>First = 1001, Last = 1001\<rparr>"
    by (auto simp: p nth_Cons' dest: spec [of _ 0] spec [of _ 1])
  with segs(2) have "segs = [\<lparr>First = 1001, Last = 2000\<rparr>, \<lparr>First = 1001, Last = 1001\<rparr>]"
    by (cases segs; cases "tl segs") auto
  with segs(1) e s1 s2 p show ?thesis by simp
qed

section \<open>Properties of the content filters\<close>

lemma filter_rule_destination:
  "filter_rule TransferFilter config substate \<longleftrightarrow>
     SkipTransferTxs config \<and> destination substate = PlainAccount"
  "filter_rule CallFilter config substate \<longleftrightarrow>
     SkipCallTxs config \<and> destination substate = ContractAccount"
  "filter_rule CreateFilter config substate \<longleftrightarrow>
     SkipCreateTxs config \<and> destination substate = NoDestination"
  by (auto simp: destination_def split: option.splits)

lemma filter_rules_disjoint:
  "f \<noteq> g \<Longrightarrow> \<not> (filter_rule f config substate \<and> filter_rule g config substate)"
  by (cases f; cases g) (auto simp: filter_rule_destination simp del: filter_rule.simps)

lemma first_match_Some_iff:
  "first_match fs config substate = Some f \<longleftrightarrow> f \<in> set fs \<and> filter_rule f config substate"
proof (induction fs)
  case Nil
  show ?case by simp
next
  case (Cons g fs)
  show ?case
    using Cons.IH filter_rules_disjoint [of f g config substate]
    by (cases "filter_rule g config substate") auto
qed

lemma first_match_None_iff:
  "first_match fs config substate = None \<longleftrightarrow> (\<forall>f \<in> set fs. \<not> filter_rule f config substate)"
  by (induction fs) auto

lemma first_match_set:
  assumes "set fs = set gs"
  shows "first_match fs config substate = first_match gs config substate"
proof (cases "first_match fs config substate")
  case None
  then show ?thesis
    using assms first_match_None_iff [of fs config substate] first_match_None_iff [of gs config substate]
    by simp
next
  case (Some f)
  then show ?thesis
    using assms first_match_Some_iff [of fs config substate f] first_match_Some_iff [of gs config substate f]
    by simp
qed

text \<open>
  Claim C7. In whatever order the three filters are applied, the same filter fires or
  none does, so the decision to skip a transaction is the one of the order of the
  source. The filter for transfers fires on a destination without code, the one for
  calls on a destination with code, the one for creations on an absent destination;
  no two of the three conditions hold together.
\<close>

theorem filters_order_independent:
  "(mset fs = mset source_order \<longrightarrow>
      first_match fs config substate = first_match source_order config substate \<and>
      (first_match fs config substate \<noteq> None \<longleftrightarrow> skip_tx config substate)) \<and>
   (filter_rule TransferFilter config substate \<longleftrightarrow>
      SkipTransferTxs config \<and> destination substate = PlainAccount) \<and>
   (filter_rule CallFilter config substate \<longleftrightarrow>
      SkipCallTxs config \<and> destination substate = ContractAccount) \<and>
   (filter_rule CreateFilter config substate \<longleftrightarrow>
      SkipCreateTxs config \<and> destination substate = NoDestination) \<and>
   \<not> (filter_rule TransferFilter config substate \<and> filter_rule CallFilter config substate) \<and>
   \<not> (filter_rule TransferFilter config substate \<and> filter_rule CreateFilter config substate) \<and>
   \<not> (filter_rule CallFilter config substate \<and> filter_rule CreateFilter config substate)"
proof -
  have "first_match fs config substate = first_match source_order config substate"
    if "mset fs = mset source_order"
    using that by (intro first_match_set) (rule mset_eq_setD)
  then show ?thesis
    using filter_rules_disjoint [of TransferFilter CallFilter config substate]
      filter_rules_disjoint [of TransferFilter CreateFilter config substate]
      filter_rules_disjoint [of CallFilter CreateFilter config substate]
    by (simp add: skip_tx_def filter_rule_destination del: filter_rule.simps)
qed

theorem filters_order_independent_witness:
  "mset [CreateFilter, CallFilter, TransferFilter] = mset source_order \<and>
   first_match [CreateFilter, CallFilter, TransferFilter] (example_config True True True) call_tx =
     Some CallFilter \<and>
   first_match source_order (example_config True True True) call_tx = Some CallFilter \<and>
   skip_tx (example_config True True True) call_tx \<and>
   destination call_tx = ContractAccount"
proof -
  have m: "mset [CreateFilter, CallFilter, TransferFilter] = mset source_order"
    by (simp add: source_order_def)
  have f: "first_match source_order (example_config True True True) call_tx = Some CallFilter"
    by (simp add: source_order_def example_config_def call_tx_def)
  have d: "destination call_tx = ContractAccount"
    by (simp add: destination_def call_tx_def)
  from filters_order_independent [of "[CreateFilter, CallFilter, TransferFilter]"
      "example_config True True True" call_tx] m
  have "first_match [CreateFilter, CallFilter, TransferFilter] (example_config True True True) call_tx =
          first_match source_order (example_config True True True) call_tx"
    and "first_match [CreateFilter, CallFilter, TransferFilter] (example_config True True True) call_tx \<noteq> None
          \<longleftrightarrow> skip_tx (example_config True True True) call_tx"
    by blast+
  with m f d show ?thesis by (simp del: first_match.simps)
qed

lemma skip_tx_all:
  assumes "SkipTransferTxs config" "SkipCallTxs config" "SkipCreateTxs config"
  shows "skip_tx config substate"
  using assms
  by (cases "destination substate")
    (simp_all add: skip_tx_def source_order_def filter_rule_destination del: filter_rule.simps)

lemma run_block_all_skipped:
  "\<forall>(t, s) \<in> set txs. skip_tx (Config pool) s \<Longrightarrow>
   run_block pool block txs n = ((n, None), [])"
  by (induction txs) auto

text \<open>
  Claim C10. With the three filters enabled every transaction is skipped: for every
  block, \<open>ExecuteBlock\<close> calls \<open>TaskFunc\<close> on no transaction and returns the count 0 and
  no error.
\<close>

theorem all_filters_skip_every_transaction:
  assumes "SkipTransferTxs (Config pool)" "SkipCallTxs (Config pool)" "SkipCreateTxs (Config pool)"
  shows "skip_tx (Config pool) substate \<and> ExecuteBlock pool block = (0, None) \<and>
         TaskFunc_calls pool block = []"
proof -
  have "\<forall>(t, s) \<in> set (DB pool block). skip_tx (Config pool) s"
    using skip_tx_all [OF assms] by auto
  from run_block_all_skipped [OF this] skip_tx_all [OF assms] show ?thesis
    by (simp add: ExecuteBlock_def TaskFunc_calls_def)
qed

lemmas example_defs = example_config_def example_pool_def NewSubstateTaskPool_def
  example_db_def fails_on_call_def transfer_tx_def call_tx_def create_tx_def

theorem all_filters_skip_every_transaction_witness:
  "SkipTransferTxs (Config (example_pool (example_config True True True))) \<and>
   SkipCallTxs (Config (example_pool (example_config True True True))) \<and>
   SkipCreateTxs (Config (example_pool (example_config True True True))) \<and>
   DB (example_pool (example_config True True True)) 7 =
     [(0, transfer_tx), (1, call_tx), (2, create_tx)] \<and>
   TaskFunc (example_pool (example_config True True True)) 7 1 call_tx = Some ''boom'' \<and>
   skip_tx (Config (example_pool (example_config True True True))) call_tx \<and>
   ExecuteBlock (example_pool (example_config True True True)) 7 = (0, None) \<and>
   TaskFunc_calls (example_pool (example_config True True True)) 7 = []"
proof -
  have c: "SkipTransferTxs (Config (example_pool (example_config True True True)))"
    "SkipCallTxs (Config (example_pool (example_config True True True)))"
    "SkipCreateTxs (Config (example_pool (example_config True True True)))"
    by (simp_all add: example_config_def example_pool_def NewSubstateTaskPool_def)
  have d: "DB (example_pool (example_config True True True)) 7 =
     [(0, transfer_tx), (1, call_tx), (2, create_tx)]"
    "TaskFunc (example_pool (example_config True True True)) 7 1 call_tx = Some ''boom''"
    by (simp_all add: example_pool_def NewSubstateTaskPool_def example_db_def fails_on_call_def)
  from all_filters_skip_every_transaction [OF c, of call_tx 7] c d show ?thesis by simp
qed

section \<open>Properties of \<open>ExecuteBlock\<close> and of the workers\<close>

lemma FormatUint_digit: "n < 10 \<Longrightarrow> FormatUint n = [digit_char n]"
  by (subst FormatUint.simps) simp

lemma FormatUint_more:
  "10 \<le> n \<Longrightarrow> FormatUint n = FormatUint (n div 10) @ [digit_char (n mod 10)]"
  by (subst FormatUint.simps) simp

lemma digit_char_cases:
  assumes "k < 10"
  shows "digit_value (digit_char k) = k \<and> is_digit (digit_char k) \<and>
         (digit_char k = CHR ''0'' \<longleftrightarrow> k = 0)"
proof -
  from assms consider "k = 0" | "k = 1" | "k = 2" | "k = 3" | "k = 4" | "k = 5"
    | "k = 6" | "k = 7" | "k = 8" | "k = 9"
    by atomize_elim arith
  then show ?thesis
    by cases (simp_all add: digit_char_def digit_value_def is_digit_def)
qed

lemma decimal_snoc: "decimal (ds @ [c]) = decimal ds * 10 + digit_value c"
  by (simp add: decimal_def)

lemma FormatUint_decimal:
  "decimal (FormatUint n) = n \<and> (\<forall>c \<in> set (FormatUint n). is_digit c) \<and>
   FormatUint n \<noteq> [] \<and> (hd (FormatUint n) = CHR ''0'' \<longleftrightarrow> n = 0)"
proof (induction n rule: FormatUint.induct)
  case (1 n)
  show ?case
  proof (cases "n < 10")
    case True
    with digit_char_cases [OF True] show ?thesis
      by (simp add: FormatUint_digit decimal_def)
  next
    case False
    then have ge: "10 \<le> n" by simp
    have d: "n mod 10 < 10" by simp
    from ge have nz: "n div 10 \<noteq> 0" by simp
    from "1.IH" [OF False] digit_char_cases [OF d] nz ge show ?thesis
      by (simp add: FormatUint_more decimal_snoc)
  qed
qed

lemma FormatUint_examples:
  "FormatUint 0 = ''0''" "FormatUint 7 = ''7''" "FormatUint 1203 = ''1203''"
  "FormatUint 4000001 = ''4000001''"
  "FormatUint 18446744073709551615 = ''18446744073709551615''"
  by (simp_all add: FormatUint_digit FormatUint_more digit_char_def)

lemma FormatInt_examples:
  "FormatInt 0 = ''0''" "FormatInt 1 = ''1''" "FormatInt 25 = ''25''" "FormatInt (- 3) = ''-3''"
  by (simp_all add: FormatInt_def FormatUint_digit FormatUint_more digit_char_def)

lemma Errorf_block_example: "Errorf_block ''replay'' 7 1 ''boom'' = ''replay: 7_1: boom''"
  by (simp add: Errorf_block_def FormatInt_def FormatUint_digit digit_char_def)

lemma run_block_callback_error:
  assumes "\<forall>(t, s) \<in> set pre. skip_tx (Config pool) s \<or> TaskFunc pool block t s = None"
    and "\<not> skip_tx (Config pool) substate"
    and "TaskFunc pool block tx substate = Some e"
  shows "run_block pool block (pre @ (tx, substate) # post) n =
     ((n + of_nat (length (filter (\<lambda>(t, s). \<not> skip_tx (Config pool) s) pre)),
       Some (Errorf_block (Name pool) block tx e)),
      map fst (filter (\<lambda>(t, s). \<not> skip_tx (Config pool) s) pre) @ [tx])"
  using assms(1)
proof (induction pre arbitrary: n)
  case Nil
  from assms(2,3) show ?case by simp
next
  case (Cons p pre)
  obtain t s where p: "p = (t, s)" by (cases p)
  from Cons.prems have rest: "\<forall>(t, s) \<in> set pre. skip_tx (Config pool) s \<or> TaskFunc pool block t s = None"
    by simp
  show ?case
  proof (cases "skip_tx (Config pool) s")
    case True
    with Cons.IH [OF rest] p show ?thesis by simp
  next
    case False
    with Cons.prems p have "TaskFunc pool block t s = None" by simp
    with False Cons.IH [OF rest, of "n + 1"] p show ?thesis by (simp add: add.assoc add.commute)
  qed
qed

text \<open>
  Claim C3. Let the callback return an error on the transaction \<open>(tx, substate)\<close> of a
  block: the transaction is not skipped, and every transaction before it in the block
  is skipped or makes the callback succeed. Then \<open>ExecuteBlock\<close> calls the callback on
  the transactions before it that are not skipped, then on this one, and on none that
  follows. It returns the number of transactions processed before this one, and an
  error whose message is the pool name, a colon and a space, the block number in
  decimal, an underscore, the transaction index in decimal, a colon and a space, and
  the message of the callback's error. The decimal text of a number consists of digits
  and denotes that number; a negative index has a minus sign in front.
\<close>

theorem ExecuteBlock_callback_error:
  assumes "DB pool block = pre @ (tx, substate) # post"
    and "\<forall>(t, s) \<in> set pre. skip_tx (Config pool) s \<or> TaskFunc pool block t s = None"
    and "\<not> skip_tx (Config pool) substate"
    and "TaskFunc pool block tx substate = Some e"
  shows "ExecuteBlock pool block =
           (of_nat (length (filter (\<lambda>(t, s). \<not> skip_tx (Config pool) s) pre)),
            Some (Name pool @ '': '' @ FormatUint (unat block) @ ''_'' @ FormatInt tx @ '': '' @ e)) \<and>
         TaskFunc_calls pool block =
           map fst (filter (\<lambda>(t, s). \<not> skip_tx (Config pool) s) pre) @ [tx] \<and>
         decimal (FormatUint (unat block)) = unat block \<and>
         (\<forall>c \<in> set (FormatUint (unat block)). is_digit c) \<and>
         FormatInt tx =
           (if tx < 0 then CHR ''-'' # FormatUint (nat (- tx)) else FormatUint (nat tx)) \<and>
         decimal (FormatUint (nat \<bar>tx\<bar>)) = nat \<bar>tx\<bar> \<and>
         (\<forall>c \<in> set (FormatUint (nat \<bar>tx\<bar>)). is_digit c) \<and>
         FormatUint 0 = ''0'' \<and> FormatUint 7 = ''7'' \<and> FormatUint 1203 = ''1203'' \<and>
         FormatUint 18446744073709551615 = ''18446744073709551615'' \<and>
         FormatInt 0 = ''0'' \<and> FormatInt 25 = ''25'' \<and> FormatInt (- 3) = ''-3''"
proof -
  from run_block_callback_error [OF assms(2-4), of post 0]
  have "ExecuteBlock pool block =
           (of_nat (length (filter (\<lambda>(t, s). \<not> skip_tx (Config pool) s) pre)),
            Some (Name pool @ '': '' @ FormatUint (unat block) @ ''_'' @ FormatInt tx @ '': '' @ e))"
    and "TaskFunc_calls pool block =
           map fst (filter (\<lambda>(t, s). \<not> skip_tx (Config pool) s) pre) @ [tx]"
    by (simp_all add: ExecuteBlock_def TaskFunc_calls_def assms(1) Errorf_block_def)
  moreover have "FormatInt tx =
      (if tx < 0 then CHR ''-'' # FormatUint (nat (- tx)) else FormatUint (nat tx))"
    by (simp add: FormatInt_def)
  ultimately show ?thesis
    using FormatUint_decimal [of "unat block"] FormatUint_decimal [of "nat \<bar>tx\<bar>"]
    by (simp add: FormatUint_examples FormatInt_examples)
qed

lemma skip_tx_no_filters: "\<not> skip_tx (example_config False False False) substate"
  by (simp add: skip_tx_def source_order_def example_config_def split: option.splits)

theorem ExecuteBlock_callback_error_witness:
  "DB (example_pool (example_config False False False)) 7 =
     [(0, transfer_tx)] @ (1, call_tx) # [(2, create_tx)] \<and>
   TaskFunc (example_pool (example_config False False False)) 7 0 transfer_tx = None \<and>
   \<not> skip_tx (Config (example_pool (example_config False False False))) call_tx \<and>
   TaskFunc (example_pool (example_config False False False)) 7 1 call_tx = Some ''boom'' \<and>
   ExecuteBlock (example_pool (example_config False False False)) 7 =
     (1, Some ''replay: 7_1: boom'') \<and>
   TaskFunc_calls (example_pool (example_config False False False)) 7 = [0, 1] \<and>
   DB second_pool 4000001 = [(3, create_tx)] @ (25, transfer_tx) # [(26, call_tx)] \<and>
   TaskFunc second_pool 4000001 3 create_tx = None \<and>
   \<not> skip_tx (Config second_pool) transfer_tx \<and>
   TaskFunc second_pool 4000001 25 transfer_tx = Some ''gas mismatch'' \<and>
   ExecuteBlock second_pool 4000001 =
     (1, Some ''substate-cli replay: 4000001_25: gas mismatch'') \<and>
   TaskFunc_calls second_pool 4000001 = [3, 25]"
proof -
  let ?pool = "example_pool (example_config False False False)"
  have cfg: "Config ?pool = example_config False False False" and nm: "Name ?pool = ''replay''"
    by (simp_all add: example_pool_def NewSubstateTaskPool_def)
  have 1: "DB ?pool 7 = [(0, transfer_tx)] @ (1, call_tx) # [(2, create_tx)]"
    by (simp add: example_pool_def NewSubstateTaskPool_def example_db_def)
  have 2: "\<forall>(t, s) \<in> set [(0, transfer_tx)].
      skip_tx (Config ?pool) s \<or> TaskFunc ?pool 7 t s = None"
    by (simp add: example_pool_def NewSubstateTaskPool_def fails_on_call_def)
  have 3: "\<not> skip_tx (Config ?pool) call_tx"
    unfolding cfg by (rule skip_tx_no_filters)
  have 4: "TaskFunc ?pool 7 1 call_tx = Some ''boom''"
    by (simp add: example_pool_def NewSubstateTaskPool_def fails_on_call_def)
  have 5: "\<not> skip_tx (Config ?pool) transfer_tx"
    unfolding cfg by (rule skip_tx_no_filters)
  have u7: "unat (7 :: uint64) = 7" by simp
  from ExecuteBlock_callback_error [OF 1 2 3 4] 5
  have a: "ExecuteBlock ?pool 7 = (1, Some ''replay: 7_1: boom'')"
    and b: "TaskFunc_calls ?pool 7 = [0, 1]"
    by (simp_all add: nm u7 FormatUint_examples FormatInt_examples)
  have c: "TaskFunc ?pool 7 0 transfer_tx = None"
    by (simp add: example_pool_def NewSubstateTaskPool_def fails_on_call_def)
  have cfg2: "Config second_pool = example_config False True False"
    and nm2: "Name second_pool = ''substate-cli replay''"
    by (simp_all add: second_pool_def NewSubstateTaskPool_def)
  have 6: "DB second_pool 4000001 = [(3, create_tx)] @ (25, transfer_tx) # [(26, call_tx)]"
    by (simp add: second_pool_def NewSubstateTaskPool_def second_db_def)
  have 7: "\<forall>(t, s) \<in> set [(3, create_tx)].
      skip_tx (Config second_pool) s \<or> TaskFunc second_pool 4000001 t s = None"
    by (simp add: second_pool_def NewSubstateTaskPool_def fails_on_transfer_def)
  have 8: "\<not> skip_tx (Config second_pool) transfer_tx"
    by (simp add: cfg2 skip_tx_def source_order_def example_config_def transfer_tx_def)
  have 9: "TaskFunc second_pool 4000001 25 transfer_tx = Some ''gas mismatch''"
    by (simp add: second_pool_def NewSubstateTaskPool_def fails_on_transfer_def)
  have 10: "\<not> skip_tx (Config second_pool) create_tx"
    by (simp add: cfg2 skip_tx_def source_order_def example_config_def create_tx_def)
  have u4: "unat (4000001 :: uint64) = 4000001" by simp
  from ExecuteBlock_callback_error [OF 6 7 8 9] 10
  have d: "ExecuteBlock second_pool 4000001 =
      (1, Some ''substate-cli replay: 4000001_25: gas mismatch'')"
    and e: "TaskFunc_calls second_pool 4000001 = [3, 25]"
    by (simp_all add: nm2 u4 FormatUint_examples FormatInt_examples)
  have f: "TaskFunc second_pool 4000001 3 create_tx = None"
    by (simp add: second_pool_def NewSubstateTaskPool_def fails_on_transfer_def)
  from a b c d e f 1 3 4 6 8 9 show ?thesis by blast
qed

lemma run_block_count:
  "run_block pool block txs n = ((m, err), calls) \<Longrightarrow>
   m = n + of_nat (length calls) - (if err = None then 0 else 1)"
proof (induction txs arbitrary: n m err calls)
  case Nil
  then show ?case by simp
next
  case (Cons p txs)
  obtain t s where p: "p = (t, s)" by (cases p)
  show ?case
  proof (cases "skip_tx (Config pool) s")
    case True
    with Cons p show ?thesis by simp
  next
    case False
    show ?thesis
    proof (cases "TaskFunc pool block t s")
      case (Some e)
      with False Cons.prems p show ?thesis by auto
    next
      case None
      with False Cons.prems p obtain calls' where
        r: "run_block pool block txs (n + 1) = ((m, err), calls')" and c: "calls = t # calls'"
        by (auto split: prod.splits)
      from Cons.IH [OF r] c show ?thesis by simp
    qed
  qed
qed

text \<open>
  Claim C2, amended. For every block that a worker processes, whether \<open>ExecuteBlock\<close>
  succeeds or returns an error, the counter of blocks grows by one and the counter of
  transactions grows by the count that \<open>ExecuteBlock\<close> returns, which is the number of
  calls of the callback that succeeded. The worker then sends the error if there is one
  and the block number otherwise.
\<close>

theorem worker_counts_every_block:
  "totalNumBlock (fst (worker_task pool block c)) = totalNumBlock c + 1 \<and>
   totalNumTx (fst (worker_task pool block c)) = totalNumTx c + fst (ExecuteBlock pool block) \<and>
   fst (ExecuteBlock pool block) =
     of_nat (length (TaskFunc_calls pool block)) -
     (if snd (ExecuteBlock pool block) = None then 0 else 1) \<and>
   snd (worker_task pool block c) =
     (case snd (ExecuteBlock pool block) of Some e \<Rightarrow> DoneError e | None \<Rightarrow> DoneBlock block)"
proof -
  obtain m err calls where r: "run_block pool block (DB pool block) 0 = ((m, err), calls)"
    by (metis surj_pair)
  from run_block_count [OF r] r show ?thesis
    by (simp add: worker_task_def ExecuteBlock_def TaskFunc_calls_def)
qed

text \<open>
  Claim C2 as stated fails: in the example data base the callback fails on the second
  transaction of block 7, \<open>ExecuteBlock\<close> returns an error, and the worker still moves
  both counters from 0 to 1.
\<close>

theorem worker_counts_failed_block_counterexample:
  "snd (ExecuteBlock (example_pool (example_config False False False)) 7) =
     Some ''replay: 7_1: boom'' \<and>
   fst (worker_task (example_pool (example_config False False False)) 7
          \<lparr>totalNumBlock = 0, totalNumTx = 0\<rparr>) =
     \<lparr>totalNumBlock = 1, totalNumTx = 1\<rparr>"
proof -
  let ?pool = "example_pool (example_config False False False)"
  have cfg: "Config ?pool = example_config False False False"
    by (simp add: example_pool_def NewSubstateTaskPool_def)
  have db: "DB ?pool 7 = [(0, transfer_tx), (1, call_tx), (2, create_tx)]"
    and nm: "Name ?pool = ''replay''"
    and tf: "TaskFunc ?pool = fails_on_call"
    by (simp_all add: example_pool_def NewSubstateTaskPool_def example_db_def)
  have "run_block ?pool 7 (DB ?pool 7) 0 = ((1, Some ''replay: 7_1: boom''), [0, 1])"
    unfolding db
    by (simp add: cfg skip_tx_no_filters nm tf fails_on_call_def Errorf_block_example)
  then have "ExecuteBlock ?pool 7 = (1, Some ''replay: 7_1: boom'')"
    by (simp add: ExecuteBlock_def)
  then show ?thesis by (simp add: worker_task_def)
qed

section \<open>Properties of the progress reports\<close>

lemma round_half_even_of_int: "round_half_even (of_int z) = z"
  by (simp add: round_half_even_def)

lemma round64_of_int_pos:
  fixes k :: int
  assumes "0 < k" and "k < 2 ^ 53"
  shows "round64 (of_int k) = of_int k"
proof -
  let ?x = "of_int k :: real"
  let ?e = "\<lfloor>log 2 \<bar>?x\<bar>\<rfloor>"
  from assms(1) have x1: "1 \<le> ?x" by simp
  then have ax: "\<bar>?x\<bar> = ?x" by simp
  have "0 \<le> log 2 ?x" using x1 by simp
  then have e0: "0 \<le> ?e" by (simp add: ax)
  from assms(2) have "?x < 2 ^ 53" 
    by (metis of_int_less_iff of_int_numeral of_int_power)
  then have "?x < 2 powr 53" by simp
  then have "log 2 ?x < 53"
    using x1 by (simp add: log_less_iff)
  then have e52: "?e \<le> 52" by (simp add: ax floor_le_iff)
  define n where "n = nat (52 - ?e)"
  from e52 have n: "real_of_int ?e - 52 = - real n" by (simp add: n_def)
  have u: "(2::real) powr (real_of_int ?e - 52) = 1 / 2 ^ n"
    unfolding n by (simp add: powr_minus powr_realpow inverse_eq_divide)
  have "?x / (1 / 2 ^ n) = of_int (k * 2 ^ n)" by simp
  then have "round_half_even (?x / (1 / 2 ^ n)) = k * 2 ^ n"
    by (simp only: round_half_even_of_int)
  then have "of_int (round_half_even (?x / (1 / 2 ^ n))) * (1 / 2 ^ n) = ?x" by simp
  with x1 show ?thesis
    unfolding round64_def u by simp
qed

lemma round64_0: "round64 0 = 0"
  by (simp add: round64_def)

lemma round64_numeral:
  "numeral w < (2 ^ 53 :: int) \<Longrightarrow> round64 (numeral w) = numeral w"
  using round64_of_int_pos [of "numeral w"] by simp

lemma fadd64_0_examples:
  "fadd64 0 5 = 5" "fadd64 0 10 = 10" "fadd64 0 20 = 20" "fadd64 0 40 = 40" "fadd64 0 60 = 60"
  by (simp_all add: fadd64_def round64_numeral)

lemma Seconds_6: "Seconds 6000000000 = 6"
  by (simp add: Seconds_def fadd64_def fdiv64_def round64_numeral round64_0)

lemma floor_log2_bounds:
  fixes a :: real
  assumes "0 < a"
  shows "2 powr of_int \<lfloor>log 2 a\<rfloor> \<le> a" and "a < 2 powr (of_int \<lfloor>log 2 a\<rfloor> + 1)"
proof -
  show "2 powr of_int \<lfloor>log 2 a\<rfloor> \<le> a"
    using assms le_log_iff [of 2 a "of_int \<lfloor>log 2 a\<rfloor>"] by simp
  have "log 2 a < of_int \<lfloor>log 2 a\<rfloor> + 1" by linarith
  then show "a < 2 powr (of_int \<lfloor>log 2 a\<rfloor> + 1)"
    using assms log_less_iff [of 2 a "of_int \<lfloor>log 2 a\<rfloor> + 1"] by simp
qed

lemma floor_log2_unique:
  fixes a :: real
  assumes "0 < a" and "2 powr of_int e \<le> a" and "a < 2 powr (of_int e + 1)"
  shows "\<lfloor>log 2 a\<rfloor> = e"
proof (rule floor_unique)
  show "of_int e \<le> log 2 a" using assms(1,2) le_log_iff [of 2 a "of_int e"] by simp
  show "log 2 a < of_int e + 1" using assms(1,3) log_less_iff [of 2 a "of_int e + 1"] by simp
qed

lemma round_half_even_bounds: "\<lfloor>y\<rfloor> \<le> round_half_even y \<and> round_half_even y \<le> \<lfloor>y\<rfloor> + 1"
  by (simp add: round_half_even_def)

lemma round64_eq:
  fixes y :: real
  assumes "0 < y" and "\<lfloor>log 2 y\<rfloor> = e"
  shows "round64 y =
    of_int (round_half_even (y / 2 powr (of_int e - 52))) * 2 powr (of_int e - 52)"
  using assms by (simp add: round64_def)

lemma round64_idem_pos:
  fixes x :: real
  assumes "0 < x"
  shows "round64 (round64 x) = round64 x"
proof -
  define e where "e = \<lfloor>log 2 x\<rfloor>"
  define u :: real where "u = 2 powr (of_int e - 52)"
  define m where "m = round_half_even (x / u)"
  have u0: "0 < u" by (simp add: u_def)
  have pe: "2 powr of_int e = u * 2 ^ 52"
    unfolding u_def by (simp add: powr_diff)
  have pe1: "2 powr (of_int e + 1) = u * 2 ^ 53"
    unfolding u_def by (simp add: powr_diff powr_add)
  from floor_log2_bounds [OF assms] have lo: "u * 2 ^ 52 \<le> x" and hi: "x < u * 2 ^ 53"
    by (simp_all add: e_def [symmetric] pe pe1)
  from lo u0 have qlo: "2 ^ 52 \<le> x / u" by (simp add: pos_le_divide_eq mult.commute)
  from hi u0 have qhi: "x / u < 2 ^ 53" by (simp add: pos_divide_less_eq mult.commute)
  from qlo have f1: "(2 ^ 52 :: int) \<le> \<lfloor>x / u\<rfloor>" by (simp add: le_floor_iff)
  from qhi have "\<lfloor>x / u\<rfloor> < (2 ^ 53 :: int)" by (simp add: floor_less_iff)
  then have f2: "\<lfloor>x / u\<rfloor> + 1 \<le> (2 ^ 53 :: int)" by (simp only: add1_zle_eq)
  note rb = round_half_even_bounds [of "x / u", folded m_def]
  have mlo: "2 ^ 52 \<le> m" using f1 rb by (rule_tac order_trans [of _ "\<lfloor>x / u\<rfloor>"]) blast+
  have mhi: "m \<le> 2 ^ 53" using f2 rb by (rule_tac order_trans [of _ "\<lfloor>x / u\<rfloor> + 1"]) blast+
  have rx: "round64 x = of_int m * u"
    unfolding m_def u_def by (rule round64_eq [OF assms]) (simp add: e_def)
  from mlo u0 have y0: "0 < of_int m * u" by simp
  show ?thesis
  proof (cases "m < 2 ^ 53")
    case True
    have "u * 2 ^ 52 \<le> of_int m * u"
      using mlo u0 by (simp add: mult.commute)
    moreover have "of_int m * u < u * 2 ^ 53"
      using True u0 by (simp add: mult.commute)
    ultimately have "\<lfloor>log 2 (of_int m * u)\<rfloor> = e"
      using y0 by (intro floor_log2_unique) (simp_all add: pe pe1)
    then have "round64 (of_int m * u) = of_int (round_half_even (of_int m * u / u)) * u"
      unfolding u_def by (rule round64_eq [OF y0 [unfolded u_def]])
    also have "\<dots> = of_int m * u"
      using u0 by (simp add: round_half_even_of_int)
    finally show ?thesis by (simp add: rx)
  next
    case False
    with mhi have m: "m = 2 ^ 53" by simp
    have y: "of_int m * u = 2 powr (of_int (e + 1))"
      using pe1 by (simp add: m mult.commute)
    have "\<lfloor>log 2 (of_int m * u)\<rfloor> = e + 1"
      unfolding y by (simp only: log_powr_cancel floor_of_int)
    moreover have "(2::real) powr (of_int (e + 1) - 52) = 2 * u"
      by (simp add: u_def powr_add powr_diff)
    ultimately have "round64 (of_int m * u) =
        of_int (round_half_even (of_int m * u / (2 * u))) * (2 * u)"
      using round64_eq [OF y0, of "e + 1"] by simp
    also have "of_int m * u / (2 * u) = of_int (2 ^ 52)"
      using u0 by (simp add: m)
    also have "of_int (round_half_even (of_int (2 ^ 52))) * (2 * u) = of_int m * u"
      by (simp only: round_half_even_of_int) (simp add: m)
    finally show ?thesis by (simp add: rx)
  qed
qed

lemma round64_pos: 
  fixes x :: real
  assumes "0 < x"
  shows "0 < round64 x"
proof -
  define e where "e = \<lfloor>log 2 x\<rfloor>"
  define u :: real where "u = 2 powr (of_int e - 52)"
  have u0: "0 < u" by (simp add: u_def)
  have pe: "2 powr of_int e = u * 2 ^ 52"
    unfolding u_def by (simp add: powr_diff)
  from floor_log2_bounds(1) [OF assms] have "u * 2 ^ 52 \<le> x"
    by (simp add: e_def [symmetric] pe)
  with u0 have "2 ^ 52 \<le> x / u" by (simp add: pos_le_divide_eq mult.commute)
  then have "(2 ^ 52 :: int) \<le> \<lfloor>x / u\<rfloor>" by (simp add: le_floor_iff)
  then have "(2 ^ 52 :: int) \<le> round_half_even (x / u)"
    using round_half_even_bounds [of "x / u"]
    by (rule_tac order_trans [of _ "\<lfloor>x / u\<rfloor>"]) blast+
  moreover have "(0::int) < 2 ^ 52" by simp
  ultimately have "0 < round_half_even (x / u)" by (rule less_le_trans [rotated])
  with u0 assms show ?thesis
    by (simp add: round64_def e_def u_def)
qed

lemma float64_sum_not_exceeded:
  "\<not> Seconds 5002000006 > fadd64 (Seconds 2000006) 5"
proof -
  define r where "r = round64 (2000006 / 1000000000)"
  have "r = round64 r" unfolding r_def by (simp add: round64_idem_pos)
  then have a: "Seconds 2000006 = r"
    by (simp add: Seconds_def fadd64_def fdiv64_def round64_numeral round64_0 r_def)
  have b: "Seconds 5002000006 = round64 (5 + r)"
    by (simp add: Seconds_def fadd64_def fdiv64_def round64_numeral round64_0 r_def)
  show ?thesis by (simp add: a b fadd64_def add.commute)
qed

lemma round64_error_pos:
  fixes x :: real
  assumes "0 < x"
  shows "x * (1 - 1 / 2 ^ 52) \<le> round64 x" and "round64 x \<le> x * (1 + 1 / 2 ^ 52)"
proof -
  define e where "e = \<lfloor>log 2 x\<rfloor>"
  define u :: real where "u = 2 powr (of_int e - 52)"
  define m where "m = round_half_even (x / u)"
  have u0: "0 < u" by (simp add: u_def)
  have pe: "2 powr of_int e = u * 2 ^ 52"
    unfolding u_def by (simp add: powr_diff)
  from floor_log2_bounds(1) [OF assms] have "u * 2 ^ 52 \<le> x"
    by (simp add: e_def [symmetric] pe)
  then have ux: "u \<le> x / 2 ^ 52" by (simp add: pos_le_divide_eq)
  have rx: "round64 x = of_int m * u"
    unfolding m_def u_def by (rule round64_eq [OF assms]) (simp add: e_def)
  note rb = round_half_even_bounds [of "x / u", folded m_def]
  have "x / u - 1 \<le> of_int \<lfloor>x / u\<rfloor>" by linarith
  also have "\<dots> \<le> of_int m" using rb by simp
  finally have "(x / u - 1) * u \<le> of_int m * u" using u0 by simp
  then have lo: "x - u \<le> of_int m * u" using u0 by (simp add: algebra_simps)
  have "real_of_int m \<le> of_int (\<lfloor>x / u\<rfloor> + 1)" using rb by (simp only: of_int_le_iff)
  also have "\<dots> \<le> x / u + 1" by simp
  finally have "of_int m * u \<le> (x / u + 1) * u" using u0 by simp
  then have hi: "of_int m * u \<le> x + u" using u0 by (simp add: algebra_simps)
  from lo ux show "x * (1 - 1 / 2 ^ 52) \<le> round64 x"
    unfolding rx by (simp add: algebra_simps)
  from hi ux show "round64 x \<le> x * (1 + 1 / 2 ^ 52)"
    unfolding rx by (simp add: algebra_simps)
qed

lemma uint64_mod_eq_0_iff:
  fixes w k :: uint64
  shows "w mod k = 0 \<longleftrightarrow> unat w mod unat k = 0"
  by (simp add: unat_eq_zero [symmetric] unat_mod del: unat_eq_zero)

lemma report_due_iff:
  "report_due segment block sec last_sec \<longleftrightarrow>
     block = Last segment \<or>
     (10000 dvd unat block \<and> fadd64 last_sec 5 < sec) \<or>
     (1000 dvd unat block \<and> fadd64 last_sec 10 < sec) \<or>
     (100 dvd unat block \<and> fadd64 last_sec 20 < sec) \<or>
     (10 dvd unat block \<and> fadd64 last_sec 40 < sec) \<or>
     fadd64 last_sec 60 < sec"
  by (simp add: report_due_def uint64_mod_eq_0_iff mod_eq_0_iff_dvd)

text \<open>
  The rounding of the sum matters. With readings of 2000006 and 5002000006
  nanoseconds the second reading is the rounded sum of the first and 5, so it does not
  exceed that sum, and at block 10000 the program makes no report.
\<close>

lemma report_not_due_at_rounded_sum:
  "\<not> report_due \<lparr>First = 1, Last = 50000\<rparr> 10000 (Seconds 5002000006) (Seconds 2000006)"
proof -
  define r where "r = round64 (2000006 / 1000000000)"
  have r0: "0 < r" unfolding r_def by (rule round64_pos) simp
  have "r \<le> 2000006 / 1000000000 * (1 + 1 / 2 ^ 52)"
    unfolding r_def by (rule round64_error_pos(2)) simp
  then have r1: "r < 1 / 100" by simp
  have "r = round64 r" unfolding r_def by (simp add: round64_idem_pos)
  then have a: "Seconds 2000006 = r"
    by (simp add: Seconds_def fadd64_def fdiv64_def round64_numeral round64_0 r_def)
  have "Seconds 5002000006 = round64 (5 + r)"
    by (simp add: Seconds_def fadd64_def fdiv64_def round64_numeral round64_0 r_def)
  then have b: "Seconds 5002000006 = round64 (r + 5)" by (simp add: add.commute)
  have "round64 (r + 5) \<le> (r + 5) * (1 + 1 / 2 ^ 52)"
    using r0 by (intro round64_error_pos(2)) simp
  also have "\<dots> < 6" using r0 r1 by simp
  finally have s6: "round64 (r + 5) < 6" .
  have ge: "k - 1 < round64 (r + k)" if "1 \<le> k" "k \<le> 100" for k
  proof -
    have "k - 1 < k * (1 - 1 / 2 ^ 52)" using that by (simp add: algebra_simps)
    also have "\<dots> \<le> (r + k) * (1 - 1 / 2 ^ 52)" using r0 by simp
    also have "\<dots> \<le> round64 (r + k)"
      using r0 that(1) by (intro round64_error_pos(1)) simp
    finally show ?thesis .
  qed
  from ge [of 10] ge [of 20] ge [of 40] ge [of 60] s6
  show ?thesis
    by (simp add: report_due_def a b fadd64_def)
qed

text \<open>
  Claim C8, amended. Before it waits for the next completion the coordinator reports
  exactly when the cursor is the last block of the segment, or is a multiple of 10000
  and the time exceeds the last report's time plus 5 seconds, or a multiple of 1000 and
  plus 10 seconds, or a multiple of 100 and plus 20 seconds, or a multiple of 10 and
  plus 40 seconds, or the time exceeds the last report's time plus 60 seconds; the
  times are \<open>float64\<close> seconds and each sum is the rounded sum of \<open>float64\<close>. A report
  carries the differences of the two counters and of the time since the last report
  and makes the current values the new baseline; without a report the baseline is
  unchanged.
\<close>

theorem report_cadence:
  "(report_due segment block sec (lastSec base) \<longleftrightarrow>
      block = Last segment \<or>
      (10000 dvd unat block \<and> round64 (lastSec base + 5) < sec) \<or>
      (1000 dvd unat block \<and> round64 (lastSec base + 10) < sec) \<or>
      (100 dvd unat block \<and> round64 (lastSec base + 20) < sec) \<or>
      (10 dvd unat block \<and> round64 (lastSec base + 40) < sec) \<or>
      round64 (lastSec base + 60) < sec) \<and>
   (report_due segment block sec (lastSec base) \<longrightarrow>
      report segment block sec c base =
        (Some \<lparr>elapsed = sec, number = block,
               blocks_since = totalNumBlock c - lastNumBlock base,
               txs_since = totalNumTx c - lastNumTx base,
               secs_since = round64 (sec - lastSec base)\<rparr>,
         \<lparr>lastSec = sec, lastNumBlock = totalNumBlock c, lastNumTx = totalNumTx c\<rparr>)) \<and>
   (\<not> report_due segment block sec (lastSec base) \<longrightarrow>
      report segment block sec c base = (None, base))"
  using report_due_iff [of segment block sec "lastSec base"]
  by (simp add: report_def fadd64_def fsub64_def)

theorem report_cadence_witness:
  "Seconds 6000000000 = 6 \<and>
   report_due \<lparr>First = 1, Last = 50000\<rparr> 20000 (Seconds 6000000000) 0 \<and>
   report \<lparr>First = 1, Last = 50000\<rparr> 20000 (Seconds 6000000000)
       \<lparr>totalNumBlock = 19999, totalNumTx = 40000\<rparr>
       \<lparr>lastSec = 0, lastNumBlock = 0, lastNumTx = 0\<rparr> =
     (Some \<lparr>elapsed = 6, number = 20000, blocks_since = 19999, txs_since = 40000,
            secs_since = 6\<rparr>,
      \<lparr>lastSec = 6, lastNumBlock = 19999, lastNumTx = 40000\<rparr>) \<and>
   \<not> report_due \<lparr>First = 1, Last = 50000\<rparr> 10 (Seconds 6000000000) 0 \<and>
   report \<lparr>First = 1, Last = 50000\<rparr> 10 (Seconds 6000000000)
       \<lparr>totalNumBlock = 9, totalNumTx = 20\<rparr>
       \<lparr>lastSec = 0, lastNumBlock = 0, lastNumTx = 0\<rparr> =
     (None, \<lparr>lastSec = 0, lastNumBlock = 0, lastNumTx = 0\<rparr>)"
proof -
  have a: "report_due \<lparr>First = 1, Last = 50000\<rparr> 20000 (Seconds 6000000000)
      (lastSec \<lparr>lastSec = 0, lastNumBlock = 0, lastNumTx = 0\<rparr>)"
    by (simp add: report_due_def Seconds_6 fadd64_0_examples)
  have b: "\<not> report_due \<lparr>First = 1, Last = 50000\<rparr> 10 (Seconds 6000000000)
      (lastSec \<lparr>lastSec = 0, lastNumBlock = 0, lastNumTx = 0\<rparr>)"
    by (simp add: report_due_def Seconds_6 fadd64_0_examples)
  from report_cadence [of "\<lparr>First = 1, Last = 50000\<rparr>" 20000 "Seconds 6000000000"
      "\<lparr>lastSec = 0, lastNumBlock = 0, lastNumTx = 0\<rparr>" "\<lparr>totalNumBlock = 19999, totalNumTx = 40000\<rparr>"] a
    report_cadence [of "\<lparr>First = 1, Last = 50000\<rparr>" 10 "Seconds 6000000000"
      "\<lparr>lastSec = 0, lastNumBlock = 0, lastNumTx = 0\<rparr>" "\<lparr>totalNumBlock = 9, totalNumTx = 20\<rparr>"] b
  show ?thesis by (simp add: Seconds_6 round64_numeral)
qed

text \<open>
  Claim C8 as stated fails: with the cursor at block 10 of the segment from 1 to 50000
  and a reading of 6 seconds after a last report at 0, the cadence of the claim (a
  multiple of 10 and more than 5 seconds) asks for a report and the program makes none.
\<close>

theorem report_cadence_counterexample:
  "report_due_as_specified \<lparr>First = 1, Last = 50000\<rparr> 10 (Seconds 6000000000) 0 \<and>
   \<not> report_due \<lparr>First = 1, Last = 50000\<rparr> 10 (Seconds 6000000000) 0"
  by (simp add: report_due_as_specified_def report_due_def Seconds_6 fadd64_0_examples)

section \<open>Properties of \<open>ExecuteSegment\<close>\<close>

lemma reachable_initial: "reachable pool n segment (initial n segment)"
  by (simp add: reachable_def)

lemma reachable_step:
  "reachable pool n segment s \<Longrightarrow> step pool n segment s s' \<Longrightarrow> reachable pool n segment s'"
  by (simp add: reachable_def)

lemma reachable_induct [consumes 1, case_names initial step]:
  assumes "reachable pool n segment s"
    and "P (initial n segment)"
    and "\<And>s s'. reachable pool n segment s \<Longrightarrow> P s \<Longrightarrow> step pool n segment s s' \<Longrightarrow> P s'"
  shows "P s"
  using assms(1) unfolding reachable_def
proof (induction rule: rtranclp_induct)
  case base
  show ?case by (rule assms(2))
next
  case (step y z)
  then show ?case using assms(3) [of y z] by (simp add: reachable_def)
qed

lemma sum_list_map_update:
  fixes f :: "'a \<Rightarrow> 'b::comm_monoid_add"
  shows "i < length xs \<Longrightarrow>
    (\<Sum>x\<leftarrow>xs[i := y]. f x) + f (xs ! i) = (\<Sum>x\<leftarrow>xs. f x) + f y"
proof (induction xs arbitrary: i)
  case Nil
  then show ?case by simp
next
  case (Cons x xs)
  show ?case
  proof (cases i)
    case 0
    then show ?thesis by (simp add: ac_simps)
  next
    case (Suc j)
    with Cons.prems have "j < length xs" by simp
    from Cons.IH [OF this] Suc show ?thesis by (simp add: ac_simps)
  qed
qed

lemma in_flight_worker_update:
  assumes "i < length (workers s)" and "sending_blocks (workers s ! i) = {#}"
  shows "(\<Sum>x\<leftarrow>(workers s)[i := w]. sending_blocks x) =
         (\<Sum>x\<leftarrow>workers s. sending_blocks x) + sending_blocks w"
  using sum_list_map_update [OF assms(1), where y = w and f = sending_blocks] assms(2) by simp

lemma in_flight_worker_sent:
  assumes "i < length (workers s)" and "workers s ! i = Sending d"
  shows "(\<Sum>x\<leftarrow>(workers s)[i := Selecting]. sending_blocks x) + done_blocks d =
         (\<Sum>x\<leftarrow>workers s. sending_blocks x)"
  using sum_list_map_update [OF assms(1), where y = Selecting and f = sending_blocks] assms(2) by simp

lemma worker_task_done:
  assumes "worker_task pool b c = (c', d)"
  shows "done_blocks d = (if block_ok pool b then {#b#} else {#})"
  using assms
  by (auto simp: worker_task_def block_ok_def split: prod.splits option.splits)

lemma worker_task_counters:
  assumes "worker_task pool b c = (c', d)"
  shows "totalNumTx c' = totalNumTx c + fst (ExecuteBlock pool b)"
    and "totalNumBlock c' = totalNumBlock c + 1"
  using assms by (auto simp: worker_task_def split: prod.splits)

lemma in_flight_step:
  assumes "step pool n segment s s'"
  shows "(\<exists>b. workChan s = b # workChan s' \<and> executed s' = executed s @ [b] \<and>
              in_flight s' = in_flight s + (if block_ok pool b then {#b#} else {#}) \<and>
              received s' = received s \<and> waitMap s' = waitMap s \<and> cursor s' = cursor s \<and>
              next_block s' = next_block s) \<or>
         (\<exists>b. in_flight s = in_flight s' + {#b#} \<and> received s' = received s @ [b] \<and>
              waitMap s' = insert b (waitMap s) \<and> executed s' = executed s \<and>
              workChan s' = workChan s \<and> cursor s' = cursor s \<and> next_block s' = next_block s) \<or>
         (in_flight s' = in_flight s \<and> received s' = received s \<and> executed s' = executed s \<and>
          ((workChan s' = workChan s \<and> next_block s' = next_block s \<and>
            ((waitMap s' = waitMap s \<and> cursor s' = cursor s) \<or>
             (coordinator s = AtLoopHead \<and> cursor s \<le> Last segment \<and> cursor s \<in> waitMap s \<and>
              waitMap s' = waitMap s - {cursor s} \<and> cursor s' = cursor s + 1))) \<or>
           (producer s = Producing \<and> next_block s \<le> Last segment \<and>
            workChan s' = workChan s @ [next_block s] \<and> next_block s' = next_block s + 1 \<and>
            waitMap s' = waitMap s \<and> cursor s' = cursor s)))"
  using assms
proof (cases rule: step.cases)
  case (worker_take i b rest c d)
  then show ?thesis
    by (simp add: in_flight_def in_flight_worker_update worker_task_done)
next
  case (worker_send i d)
  then show ?thesis
    using in_flight_worker_sent [of i s d] by (simp add: in_flight_def ac_simps)
next
  case (worker_stopped i)
  then show ?thesis
    by (simp add: in_flight_def in_flight_worker_update)
qed (simp_all add: in_flight_def)

lemma uint64_succ_neq_0: "c \<noteq> - 1 \<Longrightarrow> c + 1 \<noteq> (0 :: uint64)"
  by (simp add: add_eq_0_iff2)

lemma uint64_unat_succ_neq:
  fixes c :: uint64
  assumes "c \<noteq> - 1"
  shows "unat (c + 1) = Suc (unat c)"
  using unatSuc [of c] uint64_succ_neq_0 [OF assms] by (simp add: add.commute)

lemma uint64_less_succ:
  fixes b c :: uint64
  assumes "c \<noteq> - 1"
  shows "b < c + 1 \<longleftrightarrow> b < c \<or> b = c"
proof -
  have "unat (c + 1) = Suc (unat c)"
    using assms by (rule uint64_unat_succ_neq)
  then show ?thesis
    by (auto simp: word_less_nat_alt word_unat_eq_iff)
qed

lemma uint64_unat_succ:
  fixes c l :: uint64
  assumes "c \<le> l" and "unat l < 2 ^ 64 - 1"
  shows "unat (c + 1) = Suc (unat c)"
proof -
  from assms have "unat c < 2 ^ 64 - 1" by (simp add: word_le_nat_alt)
  then have "c \<noteq> - 1" by (auto simp: unsigned_minus_1_eq_mask mask_eq_exp_minus_1)
  then show ?thesis by (rule uint64_unat_succ_neq)
qed

lemma results_executed_step:
  assumes "step pool n segment s s'" and "results_executed pool s"
  shows "results_executed pool s'"
  using in_flight_step [OF assms(1)] assms(2)
  unfolding results_executed_def
  by (elim disjE exE conjE) (auto split: if_splits)

lemma results_executed_inv: "reachable pool n segment s \<Longrightarrow> results_executed pool s"
proof (induction rule: reachable_induct)
  case initial
  show ?case by (simp add: results_executed_def initial_def in_flight_def)
next
  case (step s s')
  from step(2,3) show ?case by (rule results_executed_step)
qed

lemma prefix_received_count:
  assumes "prefix_received segment s" and "cursor s \<le> Last segment" and "cursor s \<in> waitMap s"
  shows "prefix_received segment (s\<lparr>waitMap := waitMap s - {cursor s}, cursor := cursor s + 1\<rparr>)"
proof (cases "cursor s = - 1")
  case True
  have "b \<in> set (received s)" if "First segment \<le> b" "b \<le> Last segment" for b
  proof (cases "b = cursor s")
    case True
    with assms(1,3) show ?thesis by (auto simp: prefix_received_def)
  next
    case False
    with \<open>cursor s = - 1\<close> have "b < cursor s"
      by (simp add: word_order.not_eq_extremum)
    with assms(1) that show ?thesis by (auto simp: prefix_received_def)
  qed
  with assms(1) True show ?thesis
    by (auto simp: prefix_received_def)
next
  case False
  note succ = uint64_less_succ [OF False]
  have "cursor s < First segment" if "cursor s + 1 < First segment"
    using that succ [of "cursor s"] by (meson order_less_trans)
  with assms(1,3) show ?thesis
    by (auto simp: prefix_received_def succ)
qed

lemma prefix_received_step:
  assumes "step pool n segment s s'" and "prefix_received segment s"
  shows "prefix_received segment s'"
  using assms(1)
proof (cases rule: step.cases)
  case count_block
  with prefix_received_count [OF assms(2)] show ?thesis by simp
next
  case (report_progress d line base)
  from report_progress(7) have "line = None \<or> (\<exists>l. line = Some l \<and> number l = cursor s)"
    by (auto simp: report_def split: if_splits)
  with assms(2) report_progress(1) show ?thesis
    by (auto simp: prefix_received_def)
next
  case (receive_block b rest)
  with assms(2) show ?thesis
    by (auto simp: prefix_received_def)
qed (use assms(2) in \<open>simp_all add: prefix_received_def\<close>)

lemma prefix_received_inv: "reachable pool n segment s \<Longrightarrow> prefix_received segment s"
proof (induction rule: reachable_induct)
  case initial
  show ?case by (auto simp: prefix_received_def initial_def)
next
  case (step s s')
  from step(2,3) show ?case by (rule prefix_received_step)
qed

lemma loop_exit_sound_step:
  assumes "step pool n segment s s'" and "loop_exit_sound segment s"
  shows "loop_exit_sound segment s'"
  using assms(1)
  by (cases rule: step.cases)
    (use assms(2) in \<open>auto simp: loop_exit_sound_def loop_exited_on_success_def\<close>)

lemma loop_exit_sound_inv: "reachable pool n segment s \<Longrightarrow> loop_exit_sound segment s"
proof (induction rule: reachable_induct)
  case initial
  show ?case by (simp add: loop_exit_sound_def loop_exited_on_success_def initial_def)
next
  case (step s s')
  from step(2,3) show ?case by (rule loop_exit_sound_step)
qed

lemma counted_step:
  assumes "step pool n segment s s'" and "counted pool s"
  shows "counted pool s'"
  using assms(1)
proof (cases rule: step.cases)
  case (worker_take i b rest c d)
  with assms(2) worker_task_counters [OF worker_take(5)] show ?thesis
    by (simp add: counted_def)
qed (use assms(2) in \<open>simp_all add: counted_def\<close>)

lemma counted_inv: "reachable pool n segment s \<Longrightarrow> counted pool s"
proof (induction rule: reachable_induct)
  case initial
  show ?case by (simp add: counted_def initial_def)
next
  case (step s s')
  from step(2,3) show ?case by (rule counted_step)
qed

end
